theory Spec2Isabelle
  imports Main "HOL-Library.Word"
begin

section \<open>Bytes, slices and run-time panics\<close>

text \<open>
  A Go \<open>[]byte\<close> is modelled by a list of 8-bit words. The nil slice and the empty
  slice both have length 0 and are both the empty list. Go's \<open>int\<close> is modelled by
  \<open>int\<close>: every index computed below lies between 0 and the length of a slice, so the
  64-bit range is never left.
\<close>

type_synonym byte = "8 word"
type_synonym bytes = "byte list"

abbreviation (input) LF :: byte where
  "LF \<equiv> 10"

datatype panic = IndexOutOfRange | SendOnClosedChannel | CloseOfClosedChannel | Explicit string

text \<open>\<open>data[i]\<close>: Go panics when the index is outside the slice.\<close>

definition index :: "bytes \<Rightarrow> int \<Rightarrow> panic + byte" where
  "index data i =
     (if 0 \<le> i \<and> i < int (length data) then Inr (data ! nat i) else Inl IndexOutOfRange)"

text \<open>Go's integer division truncates towards zero.\<close>

definition goDiv :: "int \<Rightarrow> int \<Rightarrow> int" where
  "goDiv a b = sgn a * sgn b * (\<bar>a\<bar> div \<bar>b\<bar>)"

section \<open>json.go: cutPoint\<close>

text \<open>
  The backward loop \<open>for i := maxSize; i > maxSize/2; i--\<close> and the forward loop
  \<open>for i := maxSize; i < ld; i++\<close> of \<open>cutPoint\<close>. Each returns the index of the
  newline it stops at, \<open>None\<close> when it runs to its end, or the panic of an index
  operation.
\<close>

function scanBack :: "bytes \<Rightarrow> int \<Rightarrow> int \<Rightarrow> panic + int option" where
  "scanBack data lo i =
     (if i > lo then
        (case index data i of
           Inl p \<Rightarrow> Inl p
         | Inr b \<Rightarrow> if b = LF then Inr (Some i) else scanBack data lo (i - 1))
      else Inr None)"
  by pat_completeness auto
termination
  by (relation "measure (\<lambda>(data, lo, i). nat (i - lo))") auto

function scanFwd :: "bytes \<Rightarrow> int \<Rightarrow> int \<Rightarrow> panic + int option" where
  "scanFwd data ld i =
     (if i < ld then
        (case index data i of
           Inl p \<Rightarrow> Inl p
         | Inr b \<Rightarrow> if b = LF then Inr (Some i) else scanFwd data ld (i + 1))
      else Inr None)"
  by pat_completeness auto
termination
  by (relation "measure (\<lambda>(data, ld, i). nat (ld - i))") auto

text \<open>
  \<open>return data[:i+1], data[i+1:]\<close>, reached only after \<open>data[i]\<close> succeeded, so that
  the slice bounds are in range.
\<close>

definition cutAt :: "bytes \<Rightarrow> int \<Rightarrow> bytes \<times> bytes" where
  "cutAt data i = (take (nat (i + 1)) data, drop (nat (i + 1)) data)"

text \<open>
  The test \<open>data == nil\<close> is \<open>data = []\<close>: an empty slice that is not nil passes the
  test in the source and then returns the same pair, since its length exceeds no
  \<open>maxSize\<close> of 32 or more.
\<close>

definition cutPoint :: "bytes \<Rightarrow> int \<Rightarrow> panic + (bytes \<times> bytes)" where
  "cutPoint data maxSize =
     (if maxSize < 32 \<or> data = [] then Inr (data, [])
      else
        let ld = int (length data) in
        if ld > maxSize then
          (case scanBack data (goDiv maxSize 2) maxSize of
             Inl p \<Rightarrow> Inl p
           | Inr (Some i) \<Rightarrow> Inr (cutAt data i)
           | Inr None \<Rightarrow>
               (case scanFwd data ld maxSize of
                  Inl p \<Rightarrow> Inl p
                | Inr (Some i) \<Rightarrow> Inr (cutAt data i)
                | Inr None \<Rightarrow> Inr (data, [])))
        else Inr (data, []))"

text \<open>
  The indices \<open>cutPoint\<close> inspects, in the order it inspects them: from \<open>maxSize\<close>
  down to just above \<open>maxSize/2\<close>, then from \<open>maxSize\<close> up to the last byte.
\<close>

definition window :: "bytes \<Rightarrow> int \<Rightarrow> int list" where
  "window data maxSize =
     rev [goDiv maxSize 2 + 1 .. maxSize] @ [maxSize .. int (length data) - 1]"

section \<open>types.go\<close>

text \<open>
  \<open>O11yError\<close> has three constants; every other error value (from net/http, io or
  encoding/json) is \<open>Foreign\<close> with its message. Go's nil error is \<open>None\<close>.
\<close>

datatype error = ErrSendFailed | ErrClientClosed | ErrClientBacklogged | Foreign string

record CheckResponse =
  Ok :: bool

record BadType =
  Typename :: string

text \<open>The field \<open>Data any\<close> holds nil, the caller's value, or a \<open>BadType\<close>.\<close>

datatype 'v any = NilData | Arg 'v | Bad BadType

record 'v ObservationHeader =
  Timestamp :: int
  Identifier :: string
  Data :: "'v any"
  Action :: string

section \<open>The libraries the client calls\<close>

subsection \<open>encoding/json: decoding into CheckResponse\<close>

text \<open>
  \<open>jsonDecode\<close> reads the whole body and hands it to \<open>json.Unmarshal\<close>. The body
  is modelled after parsing: reading failed, the text is not JSON, or it is a JSON value.
\<close>

datatype json =
    JNull
  | JBool bool
  | JNumber
  | JString string
  | JArray "json list"
  | JObject "(string \<times> json) list"

datatype body = ReadError string | SyntaxError string | Parsed json

text \<open>
  \<open>json.Unmarshal\<close> matches an object key against the field tag \<open>ok\<close> exactly or
  under Unicode case folding; the keys that fold to \<open>ok\<close> are the four ASCII
  spellings and the two with the Kelvin sign (U+212A, UTF-8 \<open>E2 84 AA\<close>) for k.
\<close>

definition okKeys :: "string list" where
  "okKeys =
     [''ok'', ''oK'', ''Ok'', ''OK'',
      [CHR ''o'', CHR 0xE2, CHR 0x84, CHR 0xAA], [CHR ''O'', CHR 0xE2, CHR 0x84, CHR 0xAA]]"

definition matchesOk :: "string \<Rightarrow> bool" where
  "matchesOk k = (k \<in> set okKeys)"

text \<open>
  Storing a member value into the \<open>bool\<close> field: a JSON boolean is stored, \<open>null\<close>
  leaves the field alone, anything else records a type error (the first one is kept) and
  decoding goes on.
\<close>

fun storeOk :: "json \<Rightarrow> error option \<times> CheckResponse \<Rightarrow> error option \<times> CheckResponse" where
  "storeOk (JBool b) (e, r) = (e, r\<lparr>Ok := b\<rparr>)"
| "storeOk JNull (e, r) = (e, r)"
| "storeOk j (e, r) =
     (case e of
        None \<Rightarrow> (Some (Foreign ''json: cannot unmarshal into Go struct field CheckResponse.ok of type bool''), r)
      | Some x \<Rightarrow> (Some x, r))"

fun unmarshalMembers ::
  "(string \<times> json) list \<Rightarrow> error option \<times> CheckResponse \<Rightarrow> error option \<times> CheckResponse" where
  "unmarshalMembers [] s = s"
| "unmarshalMembers ((k, v) # ms) s =
     unmarshalMembers ms (if matchesOk k then storeOk v s else s)"

definition unmarshal :: "json \<Rightarrow> CheckResponse \<Rightarrow> error option \<times> CheckResponse" where
  "unmarshal j result =
     (case j of
        JObject ms \<Rightarrow> unmarshalMembers ms (None, result)
      | JNull \<Rightarrow> (None, result)
      | _ \<Rightarrow> (Some (Foreign ''json: cannot unmarshal into Go value of type o11y.CheckResponse''), result))"

text \<open>json.go, \<open>jsonDecode\<close>: \<open>io.ReadAll\<close>, then \<open>json.Unmarshal(data, result)\<close>.\<close>

definition jsonDecode :: "body \<Rightarrow> CheckResponse \<Rightarrow> error option \<times> CheckResponse" where
  "jsonDecode stream result =
     (case stream of
        ReadError m \<Rightarrow> (Some (Foreign m), result)
      | SyntaxError m \<Rightarrow> (Some (Foreign m), result)
      | Parsed j \<Rightarrow> unmarshal j result)"

subsection \<open>net/http, the JSON encoder and fmt\<close>

text \<open>
  \<open>c.httpClient.Do(req)\<close> either fails or yields a response with a body. The status
  code is never read by the client and is left out.
\<close>

datatype reply = DoError string | Response body

text \<open>
  The environment of one client:
  \<^item> \<open>transport k payload\<close>: what \<open>Do\<close> returns for a POST of \<open>payload\<close> when \<open>k\<close>
    requests were issued before it;
  \<^item> \<open>newRequestError u\<close>: the error of \<open>http.NewRequest("POST", u, ...)\<close>, if any;
  \<^item> \<open>marshal oh\<close>: the compact JSON text of an envelope, or the encoder's error;
  \<^item> \<open>typeName v\<close>: \<open>fmt.Sprintf("%T", v)\<close>.
\<close>

record 'v env =
  transport :: "nat \<Rightarrow> bytes \<Rightarrow> reply"
  newRequestError :: "string \<Rightarrow> error option"
  marshal :: "'v ObservationHeader \<Rightarrow> error + bytes"
  typeName :: "'v \<Rightarrow> string"

text \<open>What the worker does that can be seen from outside, in the order it happens.\<close>

datatype logline = Backlogged | NotMarshalable string error | FailedToSend error

datatype event = Request bytes | Slept int | Stderr logline

type_synonym world = "event list"

fun isRequest :: "event \<Rightarrow> bool" where
  "isRequest (Request b) = True"
| "isRequest e = False"

definition requestCount :: "world \<Rightarrow> nat" where
  "requestCount w = length (filter isRequest w)"

section \<open>client.go: configuration\<close>

definition SizeMargin :: int where "SizeMargin = 128"
definition MinMaxSize :: int where "MinMaxSize = 4096"
definition MaxMaxSize :: int where "MaxMaxSize = 4096 * 1000"
definition MaxNumRetries :: int where "MaxNumRetries = 10"
definition MaxSleepRetries :: int where "MaxSleepRetries = 6"
definition SleepQuantaMs :: int where "SleepQuantaMs = 250"

text \<open>\<open>time.Duration\<close> counts nanoseconds.\<close>

definition Millisecond :: int where "Millisecond = 1000000"

text \<open>
  The channel \<open>boop\<close>: a buffered channel with its queued values (oldest first), its
  capacity and whether it has been closed.
\<close>

record 'v chan =
  items :: "'v list"
  cap :: nat
  closed :: bool

record 'v client =
  url :: string
  ident :: string
  verbosity :: int
  maxSize :: int
  nRetries :: int
  buffer :: bytes
  warnedType :: "string set"
  boop :: "'v chan"
  allowWrite :: bool
  busy :: bool

text \<open>
  The struct literal of \<open>NewClient\<close>, before the options are applied. (The field
  \<open>identifier\<close> is \<open>ident\<close> here: the longer word is reserved in Isabelle.)
\<close>

definition newClient :: "string \<Rightarrow> string \<Rightarrow> 'v client" where
  "newClient u name =
     \<lparr>url = u, ident = name, verbosity = 5, maxSize = 1024 * 1024, nRetries = 5,
      buffer = [], warnedType = {}, boop = \<lparr>items = [], cap = 1024, closed = False\<rparr>,
      allowWrite = True, busy = False\<rparr>"

definition WithMaxSize :: "int \<Rightarrow> 'v client \<Rightarrow> 'v client" where
  "WithMaxSize sz =
     (let sz1 = (if sz < MinMaxSize then MinMaxSize else sz);
          sz2 = (if sz1 > MaxMaxSize then MaxMaxSize else sz1)
      in (\<lambda>c. c\<lparr>maxSize := sz2\<rparr>))"

definition WithNumRetries :: "int \<Rightarrow> 'v client \<Rightarrow> 'v client" where
  "WithNumRetries n =
     (let n1 = (if n > MaxNumRetries then MaxNumRetries else n);
          n2 = (if n1 < 1 then 1 else n1)
      in (\<lambda>c. c\<lparr>nRetries := n2\<rparr>))"

definition WithVerbosity :: "int \<Rightarrow> 'v client \<Rightarrow> 'v client" where
  "WithVerbosity v = (\<lambda>c. c\<lparr>verbosity := v\<rparr>)"

section \<open>client.go: SendJSON and preClose\<close>

text \<open>
  \<open>select { case c.boop <- data: ... default: ... }\<close>: the send proceeds when the buffer
  has room, the default case is taken when it is full, and a send on a closed channel
  panics. The mutex \<open>c.mu\<close> orders the calls of several goroutines; one call at a time
  is modelled here.
\<close>

definition trySend :: "'v chan \<Rightarrow> 'v \<Rightarrow> panic + 'v chan option" where
  "trySend ch x =
     (if closed ch then Inl SendOnClosedChannel
      else if length (items ch) < cap ch then Inr (Some (ch\<lparr>items := items ch @ [x]\<rparr>))
      else Inr None)"

definition SendJSON ::
  "int \<Rightarrow> 'v \<Rightarrow> 'v client \<times> world \<Rightarrow> panic + (error option \<times> 'v client \<times> world)" where
  "SendJSON v x cw =
     (case cw of (c, w) \<Rightarrow>
        if v > verbosity c then Inr (None, c, w)
        else if \<not> allowWrite c then Inr (Some ErrClientClosed, c, w)
        else
          (case trySend (boop c) x of
             Inl p \<Rightarrow> Inl p
           | Inr (Some ch) \<Rightarrow> Inr (None, c\<lparr>boop := ch, busy := False\<rparr>, w)
           | Inr None \<Rightarrow>
               if \<not> busy c
               then Inr (Some ErrClientBacklogged, c\<lparr>busy := True\<rparr>, w @ [Stderr Backlogged])
               else Inr (Some ErrClientBacklogged, c, w)))"

definition preClose :: "'v client \<Rightarrow> panic + 'v client" where
  "preClose c =
     (if allowWrite c then
        (if closed (boop c) then Inl CloseOfClosedChannel
         else Inr (c\<lparr>allowWrite := False, boop := (boop c)\<lparr>closed := True\<rparr>\<rparr>))
      else Inr c)"

text \<open>
  Sending a list of values one after the other with the same verbosity, keeping each
  call's result.
\<close>

fun sendAll ::
  "int \<Rightarrow> 'v list \<Rightarrow> 'v client \<times> world \<Rightarrow> panic + (error option list \<times> 'v client \<times> world)" where
  "sendAll v [] cw = Inr ([], cw)"
| "sendAll v (x # xs) cw =
     (case SendJSON v x cw of
        Inl p \<Rightarrow> Inl p
      | Inr (e, cw1) \<Rightarrow>
          (case sendAll v xs cw1 of
             Inl p \<Rightarrow> Inl p
           | Inr (es, cw2) \<Rightarrow> Inr (e # es, cw2)))"

text \<open>
  What \<open>NewClient\<close> establishes and \<open>SendJSON\<close> and \<open>preClose\<close> keep: the queue has
  room for at least one value, and it is closed exactly when writes are no longer allowed.
\<close>

definition wellFormed :: "'v client \<Rightarrow> bool" where
  "wellFormed c = (0 < cap (boop c) \<and> closed (boop c) = (\<not> allowWrite c))"

section \<open>client.go: sendPayload\<close>

text \<open>
  The sleep before attempt \<open>i > 0\<close>:
  \<open>SleepQuantaMs * time.Millisecond * time.Duration(1<<w)\<close> with \<open>w\<close> the smaller of
  \<open>i\<close> and \<open>MaxSleepRetries\<close>.
\<close>

definition backoff :: "int \<Rightarrow> int" where
  "backoff i =
     (let w = (if i > MaxSleepRetries then MaxSleepRetries else i)
      in SleepQuantaMs * Millisecond * 2 ^ nat w)"

text \<open>
  The loop of \<open>sendPayload\<close>. The function declares \<open>var err error\<close> before the loop and
  returns it after the loop. Inside the loop body \<open>req, err := http.NewRequest(...)\<close>
  declares a second \<open>err\<close>, local to the body; \<open>resp, err = c.httpClient.Do(req)\<close> and
  \<open>err = jsonDecode(...)\<close> assign to that inner variable. The parameter \<open>err\<close> below is
  the outer variable: no iteration changes it. The request headers and the deferred
  \<open>resp.Body.Close()\<close> have no part in what the function returns and are left out;
  \<open>c.clock.Sleep\<close> is recorded as an event.
\<close>

function sendLoop ::
  "'v env \<Rightarrow> 'v client \<Rightarrow> bytes \<Rightarrow> error option \<Rightarrow> int \<Rightarrow> world \<Rightarrow> error option \<times> world" where
  "sendLoop env c payload err i w =
     (if i < nRetries c then
        let w1 = (if i > 0 then w @ [Slept (backoff i)] else w) in
        (case newRequestError env (url c) of
           Some e \<Rightarrow> (Some e, w1)
         | None \<Rightarrow>
             (case transport env (requestCount w1) payload of
                DoError m \<Rightarrow> sendLoop env c payload err (i + 1) (w1 @ [Request payload])
              | Response b \<Rightarrow>
                  (case jsonDecode b \<lparr>Ok = False\<rparr> of
                     (Some e, ok) \<Rightarrow> sendLoop env c payload err (i + 1) (w1 @ [Request payload])
                   | (None, ok) \<Rightarrow>
                       if \<not> Ok ok then (Some ErrSendFailed, w1 @ [Request payload])
                       else (None, w1 @ [Request payload]))))
      else (err, w))"
  by pat_completeness auto
termination
  by (relation "measure (\<lambda>(env, c, payload, err, i, w). nat (nRetries c - i))") auto

definition sendPayload :: "'v env \<Rightarrow> 'v client \<Rightarrow> bytes \<Rightarrow> world \<Rightarrow> error option \<times> world" where
  "sendPayload env c payload w = sendLoop env c payload None 0 w"

text \<open>
  The events of the attempts numbered \<open>i\<close> to \<open>k - 1\<close> of one \<open>sendPayload\<close> call when
  none of them is cut short: a sleep before every attempt but attempt 0, then the request.
\<close>

definition attempts :: "bytes \<Rightarrow> nat \<Rightarrow> nat \<Rightarrow> world" where
  "attempts payload i k =
     concat (map (\<lambda>j. (if j > 0 then [Slept (backoff (int j))] else []) @ [Request payload]) [i..<k])"

text \<open>
  A reply after which the loop says \<open>continue\<close>: \<open>Do\<close> failed, or the body could not be
  read or decoded into a \<open>CheckResponse\<close>.
\<close>

definition retryable :: "reply \<Rightarrow> bool" where
  "retryable r =
     (case r of
        DoError m \<Rightarrow> True
      | Response b \<Rightarrow> fst (jsonDecode b \<lparr>Ok = False\<rparr>) \<noteq> None)"

text \<open>Whether some key of a JSON object names the field \<open>ok\<close>.\<close>

definition hasOk :: "(string \<times> json) list \<Rightarrow> bool" where
  "hasOk ms = list_ex (\<lambda>kv. matchesOk (fst kv)) ms"

section \<open>client.go: flushBuffer\<close>

text \<open>
  One iteration's split: \<open>var rest []byte; if len(data) > c.maxSize { data, rest =
  cutPoint(data, c.maxSize) }\<close>.
\<close>

definition nextPiece :: "int \<Rightarrow> bytes \<Rightarrow> panic + (bytes \<times> bytes)" where
  "nextPiece m remaining =
     (if int (length remaining) > m then cutPoint remaining m else Inr (remaining, []))"

text \<open>
  \<open>if err := c.sendPayload(data); err != nil { fmt.Fprintf(os.Stderr, ...) }\<close>: a failed
  send leaves one line on stderr.
\<close>

definition logFailure :: "error option \<times> world \<Rightarrow> world" where
  "logFailure r = (case r of (Some e, w) \<Rightarrow> w @ [Stderr (FailedToSend e)] | (None, w) \<Rightarrow> w)"

text \<open>
  The \<open>for len(data) > 0\<close> loop. A run that never leaves the loop is \<open>None\<close>. After a
  failed send the loop goes on with the rest.
\<close>

partial_function (option) flushLoop ::
  "'v env \<Rightarrow> 'v client \<Rightarrow> bytes \<Rightarrow> world \<Rightarrow> (panic + world) option" where
  "flushLoop env c remaining w =
     (if length remaining > 0 then
        (case nextPiece (maxSize c) remaining of
           Inl p \<Rightarrow> Some (Inl p)
         | Inr (piece, rest) \<Rightarrow> flushLoop env c rest (logFailure (sendPayload env c piece w)))
      else Some (Inr w))"

text \<open>\<open>data := c.buffer.Bytes(); defer c.buffer.Reset()\<close> around the loop.\<close>

definition flushBuffer ::
  "'v env \<Rightarrow> 'v client \<times> world \<Rightarrow> (panic + 'v client \<times> world) option" where
  "flushBuffer env cw =
     (case cw of (c, w) \<Rightarrow>
        (case flushLoop env c (buffer c) w of
           None \<Rightarrow> None
         | Some (Inl p) \<Rightarrow> Some (Inl p)
         | Some (Inr w1) \<Rightarrow> Some (Inr (c\<lparr>buffer := []\<rparr>, w1))))"

section \<open>client.go: writeOne and warnError\<close>

text \<open>
  \<open>c.queue.Encode(&oh)\<close>: the encoder marshals the envelope and writes the text and a
  newline to the buffer; when marshalling fails nothing is written.
\<close>

definition Encode ::
  "'v env \<Rightarrow> 'v ObservationHeader \<Rightarrow> 'v client \<Rightarrow> error option \<times> 'v client" where
  "Encode env oh c =
     (case marshal env oh of
        Inl e \<Rightarrow> (Some e, c)
      | Inr text \<Rightarrow> (None, c\<lparr>buffer := buffer c @ text @ [LF]\<rparr>))"

definition typeNameOf :: "'v env \<Rightarrow> 'v any \<Rightarrow> string" where
  "typeNameOf env x =
     (case x of NilData \<Rightarrow> ''<nil>'' | Arg v \<Rightarrow> typeName env v | Bad b \<Rightarrow> ''o11y.BadType'')"

definition warnError ::
  "'v env \<Rightarrow> 'v ObservationHeader \<Rightarrow> error \<Rightarrow> 'v client \<times> world \<Rightarrow> 'v client \<times> world" where
  "warnError env oh err cw =
     (case cw of (c, w) \<Rightarrow>
        let t = typeNameOf env (Data oh) in
        if t \<notin> warnedType c then
          let c1 = c\<lparr>warnedType := insert t (warnedType c)\<rparr>;
              w1 = w @ [Stderr (NotMarshalable t err)];
              oh1 = oh\<lparr>Data := Bad \<lparr>Typename = t\<rparr>\<rparr>
          in (snd (Encode env oh1 c1), w1)
        else (c, w))"

text \<open>The envelope \<open>writeOne\<close> builds for a value taken from the queue at time \<open>ts\<close>.\<close>

definition envelope :: "'v client \<Rightarrow> int \<Rightarrow> 'v \<Rightarrow> 'v ObservationHeader" where
  "envelope c ts arg = \<lparr>Timestamp = ts, Identifier = ident c, Data = Arg arg, Action = ''data''\<rparr>"

definition encodeOrWarn ::
  "'v env \<Rightarrow> int \<Rightarrow> 'v \<Rightarrow> 'v client \<times> world \<Rightarrow> 'v client \<times> world" where
  "encodeOrWarn env ts arg cw =
     (case cw of (c, w) \<Rightarrow>
        let oh = envelope c ts arg in
        (case Encode env oh c of
           (Some e, c1) \<Rightarrow> warnError env oh e (c1, w)
         | (None, c1) \<Rightarrow> (c1, w)))"

text \<open>
  \<open>writeOne\<close>: the statement \<open>if err := c.queue.Encode(&oh); err != nil { c.warnError(&oh,
  err) }\<close> is \<open>encodeOrWarn\<close>; then the buffer is flushed when it has reached
  \<open>maxSize - SizeMargin\<close>.
\<close>

definition writeOne ::
  "'v env \<Rightarrow> int \<Rightarrow> 'v \<Rightarrow> 'v client \<times> world \<Rightarrow> (panic + 'v client \<times> world) option" where
  "writeOne env ts arg cw =
     (let cw2 = encodeOrWarn env ts arg cw in
      if int (length (buffer (fst cw2))) \<ge> maxSize (fst cw2) - SizeMargin
      then flushBuffer env cw2
      else Some (Inr cw2))"

text \<open>
  The worker's loop taking \<open>case arg, ok := <-c.boop\<close> once for each value of a
  sequence, in the order the channel delivers them; each value comes with the clock
  reading at which it is serialized.
\<close>

fun writeAll ::
  "'v env \<Rightarrow> (int \<times> 'v) list \<Rightarrow> 'v client \<times> world \<Rightarrow> (panic + 'v client \<times> world) option" where
  "writeAll env [] cw = Some (Inr cw)"
| "writeAll env ((ts, arg) # rest) cw =
     (case writeOne env ts arg cw of
        None \<Rightarrow> None
      | Some (Inl p) \<Rightarrow> Some (Inl p)
      | Some (Inr cw1) \<Rightarrow> writeAll env rest cw1)"

text \<open>The worker takes the values of a sequence, then the flush timer fires.\<close>

definition writeThenFlush ::
  "'v env \<Rightarrow> (int \<times> 'v) list \<Rightarrow> 'v client \<times> world \<Rightarrow> (panic + 'v client \<times> world) option" where
  "writeThenFlush env xs cw =
     (case writeAll env xs cw of
        None \<Rightarrow> None
      | Some (Inl p) \<Rightarrow> Some (Inl p)
      | Some (Inr cw1) \<Rightarrow> flushBuffer env cw1)"

text \<open>The line a value contributes to the buffer when it serializes.\<close>

definition encodedLine :: "'v env \<Rightarrow> 'v client \<Rightarrow> int \<times> 'v \<Rightarrow> bytes" where
  "encodedLine env c x =
     (case marshal env (envelope c (fst x) (snd x)) of Inl e \<Rightarrow> [] | Inr text \<Rightarrow> text @ [LF])"

definition serializes :: "'v env \<Rightarrow> 'v client \<Rightarrow> int \<times> 'v \<Rightarrow> bool" where
  "serializes env c x =
     (case marshal env (envelope c (fst x) (snd x)) of Inl e \<Rightarrow> False | Inr text \<Rightarrow> True)"

text \<open>
  The types named by the warnings on stderr, in the order logged; and the state of the
  warning bookkeeping in which every warned type has been logged exactly once.
\<close>

fun warnedTypes :: "world \<Rightarrow> string list" where
  "warnedTypes [] = []"
| "warnedTypes (Stderr (NotMarshalable t e) # w) = t # warnedTypes w"
| "warnedTypes (ev # w) = warnedTypes w"

definition warnedOnce :: "'v client \<times> world \<Rightarrow> bool" where
  "warnedOnce cw = (distinct (warnedTypes (snd cw)) \<and> set (warnedTypes (snd cw)) = warnedType (fst cw))"

section \<open>json.go (second part): the fake clock\<close>

text \<open>
  \<open>time.Time\<close> is a count of nanoseconds and \<open>Add\<close> is addition. A ticker's channel
  has capacity 1: it is empty or holds one tick. The list \<open>tickers\<close> holds pointers in
  the source; here a ticker is named by its position in the list. \<open>Sleep\<close> gives up
  its mutex while it offers a tick; what other goroutines do in between is not modelled.
\<close>

record fakeTicker =
  d_tick :: int
  c_tick :: "int option"
  next_tick :: int

record FakeClock =
  now :: int
  tickers :: "fakeTicker list"

text \<open>
  The inner loop of \<open>Sleep\<close>: \<open>earliest\<close> becomes the first ticker, and afterwards any
  ticker whose \<open>next\<close> is strictly before the current candidate's.
\<close>

fun scanEarliest ::
  "(nat \<times> fakeTicker) option \<Rightarrow> (nat \<times> fakeTicker) list \<Rightarrow> (nat \<times> fakeTicker) option" where
  "scanEarliest e [] = e"
| "scanEarliest e ((i, t) # its) =
     scanEarliest
       (case e of
          None \<Rightarrow> Some (i, t)
        | Some (j, u) \<Rightarrow> if next_tick t < next_tick u then Some (i, t) else Some (j, u))
       its"

definition earliest :: "fakeTicker list \<Rightarrow> (nat \<times> fakeTicker) option" where
  "earliest ts = scanEarliest None (enumerate 0 ts)"

text \<open>\<open>select { case earliest.c <- n: default: }\<close> on a channel of capacity 1.\<close>

definition trySendTick :: "int option \<Rightarrow> int \<Rightarrow> int option \<times> bool" where
  "trySendTick ch n = (case ch of None \<Rightarrow> (Some n, True) | Some m \<Rightarrow> (Some m, False))"

text \<open>One firing: which ticker, the due time it fired at, and whether the tick was taken.\<close>

record fired =
  ticker :: nat
  due :: int
  delivered :: bool

text \<open>
  The outer \<open>for\<close> loop of \<open>Sleep\<close>, with the firings so far. A run that never leaves
  the loop is \<open>None\<close>.
\<close>

partial_function (option) sleepLoop ::
  "int \<Rightarrow> FakeClock \<Rightarrow> fired list \<Rightarrow> (FakeClock \<times> fired list) option" where
  "sleepLoop sleepUntil f out =
     (case earliest (tickers f) of
        None \<Rightarrow> Some (f\<lparr>now := sleepUntil\<rparr>, out)
      | Some (i, t) \<Rightarrow>
          if next_tick t > sleepUntil then Some (f\<lparr>now := sleepUntil\<rparr>, out)
          else
            let n = next_tick t;
                t1 = t\<lparr>next_tick := next_tick t + d_tick t\<rparr>;
                (ch, ok) = trySendTick (c_tick t1) n;
                t2 = t1\<lparr>c_tick := ch\<rparr>
            in sleepLoop sleepUntil
                 (f\<lparr>now := n, tickers := (tickers f)[i := t2]\<rparr>)
                 (out @ [\<lparr>ticker = i, due = n, delivered = ok\<rparr>]))"

definition Sleep :: "int \<Rightarrow> FakeClock \<Rightarrow> (FakeClock \<times> fired list) option" where
  "Sleep dur f = sleepLoop (now f + dur) f []"

definition NewTicker :: "int \<Rightarrow> FakeClock \<Rightarrow> panic + FakeClock" where
  "NewTicker dur f =
     (if 0 = dur then Inl (Explicit ''zero interval ticker'')
      else Inr (f\<lparr>tickers := tickers f @ [\<lparr>d_tick = dur, c_tick = None, next_tick = now f + dur\<rparr>]\<rparr>))"

text \<open>
  How far the tickers are from being past the time \<open>u\<close>: the sum, over the tickers, of
  the nanoseconds from each one's next due time up to \<open>u\<close> (none when it is due later).
\<close>

definition pending :: "int \<Rightarrow> FakeClock \<Rightarrow> nat" where
  "pending u f = sum_list (map (\<lambda>t. nat (u + 1 - next_tick t)) (tickers f))"


section \<open>Concrete inputs\<close>

text \<open>Inputs at which the theorems below are evaluated.\<close>

definition cutSample :: bytes where
  "cutSample = replicate 20 65 @ [LF] @ replicate 20 66"

definition noLineSample :: bytes where
  "noLineSample = replicate 40 65"

text \<open>
  A stand-in for the values callers send: a value that serializes to a JSON text of a given
  number of bytes, and two values Go cannot marshal.
\<close>

datatype val = Blob nat | Chan | Func

definition stubMarshal :: "val ObservationHeader \<Rightarrow> error + bytes" where
  "stubMarshal oh =
     (case Data oh of
        NilData \<Rightarrow> Inr (replicate 40 104)
      | Arg (Blob n) \<Rightarrow> Inr (replicate n 120)
      | Arg Chan \<Rightarrow> Inl (Foreign ''json: unsupported type: chan int'')
      | Arg Func \<Rightarrow> Inl (Foreign ''json: unsupported type: func()'')
      | Bad b \<Rightarrow> Inr (replicate 59 98))"

definition stubTypeName :: "val \<Rightarrow> string" where
  "stubTypeName v = (case v of Blob n \<Rightarrow> ''string'' | Chan \<Rightarrow> ''chan int'' | Func \<Rightarrow> ''func()'')"

text \<open>An environment whose collector answers every request in the same way.\<close>

definition stubEnv :: "reply \<Rightarrow> val env" where
  "stubEnv r =
     \<lparr>transport = (\<lambda>k payload. r), newRequestError = (\<lambda>u. None),
      marshal = stubMarshal, typeName = stubTypeName\<rparr>"

definition ackTrue :: reply where
  "ackTrue = Response (Parsed (JObject [(''ok'', JBool True)]))"

definition ackFalse :: reply where
  "ackFalse = Response (Parsed (JObject [(''ok'', JBool False)]))"

definition emptyObject :: reply where
  "emptyObject = Response (Parsed (JObject []))"

definition refused :: reply where
  "refused = DoError ''dial tcp: connection refused''"

definition testClient :: "val client" where
  "testClient = newClient ''http://collector.test/v1/http/test-path'' ''test-client:3''"

definition smallClient :: "val client" where
  "smallClient = WithMaxSize 4096 testClient"

text \<open>A buffer of 4191 bytes whose only newline is at index 4090.\<close>

definition flushSample :: bytes where
  "flushSample = replicate 4090 120 @ [LF] @ replicate 100 121"

text \<open>A payload of one line.\<close>

definition onePayload :: bytes where
  "onePayload = [123, 125, LF]"

text \<open>A client whose queue holds two values, and the test client once draining has begun.\<close>

definition tinyClient :: "val client" where
  "tinyClient = testClient\<lparr>boop := \<lparr>items = [], cap = 2, closed = False\<rparr>\<rparr>"

definition drainingClient :: "val client" where
  "drainingClient = testClient\<lparr>allowWrite := False, boop := (boop testClient)\<lparr>closed := True\<rparr>\<rparr>"

text \<open>Three values whose lines have 1990, 1990 and 100 bytes.\<close>

definition marginBatch :: "(int \<times> val) list" where
  "marginBatch = [(1, Blob 1989), (2, Blob 1989), (3, Blob 99)]"

text \<open>The test client after it has warned about a channel value.\<close>

definition warnedClient :: "val client" where
  "warnedClient = testClient\<lparr>warnedType := {''chan int''}, buffer := replicate 59 98 @ [LF]\<rparr>"

definition chanWarning :: event where
  "chanWarning = Stderr (NotMarshalable ''chan int'' (Foreign ''json: unsupported type: chan int''))"

text \<open>
  A clock with two tickers of periods 10 and 15, and the clock that \<open>NewTicker\<close> makes
  from an empty one when asked for a period of -1.
\<close>

definition twoTickers :: FakeClock where
  "twoTickers =
     \<lparr>now = 0,
      tickers = [\<lparr>d_tick = 10, c_tick = None, next_tick = 10\<rparr>,
                 \<lparr>d_tick = 15, c_tick = None, next_tick = 15\<rparr>]\<rparr>"

definition backwardClock :: FakeClock where
  "backwardClock = \<lparr>now = 0, tickers = [\<lparr>d_tick = - 1, c_tick = None, next_tick = - 1\<rparr>]\<rparr>"

section \<open>Properties of cutPoint\<close>

lemma goDiv_2_nonneg: "0 \<le> m \<Longrightarrow> goDiv m 2 = m div 2"
  by (cases "m = 0") (simp_all add: goDiv_def)

lemma scanBack_Inr:
  "0 \<le> lo \<Longrightarrow> i < int (length data) \<Longrightarrow> \<exists>r. scanBack data lo i = Inr r"
proof (induction data lo i rule: scanBack.induct)
  case (1 data lo i)
  show ?case
  proof (cases "i > lo")
    case True
    with 1 have ix: "index data i = Inr (data ! nat i)" by (simp add: index_def)
    show ?thesis
    proof (cases "data ! nat i = LF")
      case True
      with \<open>i > lo\<close> ix show ?thesis by (subst scanBack.simps) simp
    next
      case False
      with 1 \<open>i > lo\<close> ix have "\<exists>r. scanBack data lo (i - 1) = Inr r" by simp
      with False \<open>i > lo\<close> ix show ?thesis by (subst scanBack.simps) simp
    qed
  next
    case False
    then show ?thesis by (subst scanBack.simps) simp
  qed
qed

lemma scanBack_Some:
  "scanBack data lo i = Inr (Some k) \<Longrightarrow>
     lo < k \<and> k \<le> i \<and> 0 \<le> k \<and> k < int (length data) \<and> data ! nat k = LF \<and> (\<forall>j. k < j \<and> j \<le> i \<longrightarrow> data ! nat j \<noteq> LF)"
proof (induction data lo i rule: scanBack.induct)
  case (1 data lo i)
  from "1.prems" have gt: "i > lo"
    by (subst (asm) scanBack.simps) (simp split: if_splits)
  from "1.prems" gt obtain b where ix: "index data i = Inr b"
    by (subst (asm) scanBack.simps) (simp split: sum.splits)
  then have rng: "0 \<le> i" "i < int (length data)" and b: "b = data ! nat i"
    by (auto simp: index_def split: if_splits)
  show ?case
  proof (cases "b = LF")
    case True
    with "1.prems" gt ix have "k = i" by (subst (asm) scanBack.simps) simp
    with True gt rng b show ?thesis by auto
  next
    case False
    with "1.prems" gt ix have "scanBack data lo (i - 1) = Inr (Some k)"
      by (subst (asm) scanBack.simps) simp
    with "1.IH" gt ix False
    have IH: "lo < k \<and> k \<le> i - 1 \<and> 0 \<le> k \<and> k < int (length data) \<and> data ! nat k = LF \<and> (\<forall>j. k < j \<and> j \<le> i - 1 \<longrightarrow> data ! nat j \<noteq> LF)"
      by simp
    have "\<forall>j. k < j \<and> j \<le> i \<longrightarrow> data ! nat j \<noteq> LF"
    proof (intro allI impI)
      fix j assume "k < j \<and> j \<le> i"
      then consider "j \<le> i - 1" "k < j" | "j = i" by linarith
      then show "data ! nat j \<noteq> LF" using IH False b by cases auto
    qed
    with IH show ?thesis by simp
  qed
qed

lemma scanBack_None:
  "scanBack data lo i = Inr None \<Longrightarrow> \<forall>j. lo < j \<and> j \<le> i \<longrightarrow> data ! nat j \<noteq> LF"
proof (induction data lo i rule: scanBack.induct)
  case (1 data lo i)
  show ?case
  proof (cases "i > lo")
    case False
    then show ?thesis by auto
  next
    case gt: True
    from "1.prems" gt obtain b where ix: "index data i = Inr b"
      by (subst (asm) scanBack.simps) (simp split: sum.splits)
    then have b: "b = data ! nat i"
      by (auto simp: index_def split: if_splits)
    from "1.prems" gt ix have nb: "b \<noteq> LF"
      by (subst (asm) scanBack.simps) (simp split: if_splits)
    with "1.prems" gt ix have "scanBack data lo (i - 1) = Inr None"
      by (subst (asm) scanBack.simps) simp
    with "1.IH" gt ix nb have IH: "\<forall>j. lo < j \<and> j \<le> i - 1 \<longrightarrow> data ! nat j \<noteq> LF"
      by simp
    show ?thesis
    proof (intro allI impI)
      fix j assume "lo < j \<and> j \<le> i"
      then consider "j \<le> i - 1" "lo < j" | "j = i" by linarith
      then show "data ! nat j \<noteq> LF" using IH nb b by cases auto
    qed
  qed
qed


lemma scanFwd_Inr:
  "0 \<le> i \<Longrightarrow> ld \<le> int (length data) \<Longrightarrow> \<exists>r. scanFwd data ld i = Inr r"
proof (induction data ld i rule: scanFwd.induct)
  case (1 data ld i)
  show ?case
  proof (cases "i < ld")
    case True
    with 1 have ix: "index data i = Inr (data ! nat i)" by (simp add: index_def)
    show ?thesis
    proof (cases "data ! nat i = LF")
      case True
      with \<open>i < ld\<close> ix show ?thesis by (subst scanFwd.simps) simp
    next
      case False
      with 1 \<open>i < ld\<close> ix have "\<exists>r. scanFwd data ld (i + 1) = Inr r" by simp
      with False \<open>i < ld\<close> ix show ?thesis by (subst scanFwd.simps) simp
    qed
  next
    case False
    then show ?thesis by (subst scanFwd.simps) simp
  qed
qed

lemma scanFwd_Some:
  "scanFwd data ld i = Inr (Some k) \<Longrightarrow>
     i \<le> k \<and> k < ld \<and> 0 \<le> k \<and> k < int (length data) \<and> data ! nat k = LF \<and>
     (\<forall>j. i \<le> j \<and> j < k \<longrightarrow> data ! nat j \<noteq> LF)"
proof (induction data ld i rule: scanFwd.induct)
  case (1 data ld i)
  from "1.prems" have lt: "i < ld"
    by (subst (asm) scanFwd.simps) (simp split: if_splits)
  from "1.prems" lt obtain b where ix: "index data i = Inr b"
    by (subst (asm) scanFwd.simps) (simp split: sum.splits)
  then have rng: "0 \<le> i" "i < int (length data)" and b: "b = data ! nat i"
    by (auto simp: index_def split: if_splits)
  show ?case
  proof (cases "b = LF")
    case True
    with "1.prems" lt ix have "k = i" by (subst (asm) scanFwd.simps) simp
    with True lt rng b show ?thesis by auto
  next
    case False
    with "1.prems" lt ix have "scanFwd data ld (i + 1) = Inr (Some k)"
      by (subst (asm) scanFwd.simps) simp
    with "1.IH" lt ix False
    have IH: "i + 1 \<le> k \<and> k < ld \<and> 0 \<le> k \<and> k < int (length data) \<and> data ! nat k = LF \<and>
              (\<forall>j. i + 1 \<le> j \<and> j < k \<longrightarrow> data ! nat j \<noteq> LF)"
      by simp
    have "\<forall>j. i \<le> j \<and> j < k \<longrightarrow> data ! nat j \<noteq> LF"
    proof (intro allI impI)
      fix j assume "i \<le> j \<and> j < k"
      then consider "i + 1 \<le> j" "j < k" | "j = i" by linarith
      then show "data ! nat j \<noteq> LF" using IH False b by cases auto
    qed
    with IH show ?thesis by simp
  qed
qed

lemma scanFwd_None:
  "scanFwd data ld i = Inr None \<Longrightarrow> \<forall>j. i \<le> j \<and> j < ld \<longrightarrow> data ! nat j \<noteq> LF"
proof (induction data ld i rule: scanFwd.induct)
  case (1 data ld i)
  show ?case
  proof (cases "i < ld")
    case False
    then show ?thesis by auto
  next
    case lt: True
    from "1.prems" lt obtain b where ix: "index data i = Inr b"
      by (subst (asm) scanFwd.simps) (simp split: sum.splits)
    then have b: "b = data ! nat i"
      by (auto simp: index_def split: if_splits)
    from "1.prems" lt ix have nb: "b \<noteq> LF"
      by (subst (asm) scanFwd.simps) (simp split: if_splits)
    with "1.prems" lt ix have "scanFwd data ld (i + 1) = Inr None"
      by (subst (asm) scanFwd.simps) simp
    with "1.IH" lt ix nb have IH: "\<forall>j. i + 1 \<le> j \<and> j < ld \<longrightarrow> data ! nat j \<noteq> LF"
      by simp
    show ?thesis
    proof (intro allI impI)
      fix j assume "i \<le> j \<and> j < ld"
      then consider "i + 1 \<le> j" "j < ld" | "j = i" by linarith
      then show "data ! nat j \<noteq> LF" using IH nb b by cases auto
    qed
  qed
qed

lemma cutAt_append: "fst (cutAt data i) @ snd (cutAt data i) = data"
  by (simp add: cutAt_def)

lemma cutAt_last:
  assumes "0 \<le> i" "i < int (length data)"
  shows "fst (cutAt data i) \<noteq> [] \<and> last (fst (cutAt data i)) = data ! nat i \<and>
         length (snd (cutAt data i)) < length data"
proof -
  from assms have n: "nat (i + 1) = Suc (nat i)" "nat i < length data" by auto
  then have "take (nat (i + 1)) data = take (nat i) data @ [data ! nat i]"
    by (simp add: take_Suc_conv_app_nth)
  with n show ?thesis by (simp add: cutAt_def)
qed

lemma set_window:
  "set (window data m) =
     {i. goDiv m 2 < i \<and> i \<le> m} \<union> {i. m \<le> i \<and> i < int (length data)}"
  by (auto simp: window_def)

text \<open>
  The outcomes of \<open>cutPoint\<close>: the input comes back whole, or it is cut just after a
  newline found at an inspected index.
\<close>

lemma cutPoint_split:
  "cutPoint data m = Inr (data, []) \<and>
     (m < 32 \<or> int (length data) \<le> m \<or> (\<forall>i \<in> set (window data m). data ! nat i \<noteq> LF)) \<or>
   (\<exists>k \<in> set (window data m). 32 \<le> m \<and> m < int (length data) \<and> 0 \<le> k \<and>
      k < int (length data) \<and> data ! nat k = LF \<and> cutPoint data m = Inr (cutAt data k))"
proof (cases "m < 32 \<or> int (length data) \<le> m")
  case True
  then have "cutPoint data m = Inr (data, [])"
    by (auto simp: cutPoint_def)
  with True show ?thesis by auto
next
  case False
  then have mb: "32 \<le> m" "m < int (length data)" by auto
  then have ne: "data \<noteq> []" by auto
  from mb have lo: "goDiv m 2 = m div 2" by (simp add: goDiv_2_nonneg)
  then have lo0: "0 \<le> goDiv m 2" using mb by simp
  from scanBack_Inr [OF lo0 mb(2)] obtain rb where rb: "scanBack data (goDiv m 2) m = Inr rb"
    by blast
  show ?thesis
  proof (cases rb)
    case (Some k)
    from scanBack_Some [OF rb [unfolded Some]]
    have k: "goDiv m 2 < k" "k \<le> m" "0 \<le> k" "k < int (length data)" "data ! nat k = LF"
      by auto
    have cp: "cutPoint data m = Inr (cutAt data k)"
      using mb ne rb Some by (simp add: cutPoint_def)
    have win: "k \<in> set (window data m)" using k by (simp add: set_window)
    from k cp win mb show ?thesis by blast
  next
    case None
    from scanBack_None [OF rb [unfolded None]]
    have nb: "\<forall>j. goDiv m 2 < j \<and> j \<le> m \<longrightarrow> data ! nat j \<noteq> LF" .
    have "0 \<le> m" using mb by simp
    from scanFwd_Inr [OF this, of "int (length data)" data]
    obtain rf where rf: "scanFwd data (int (length data)) m = Inr rf" by auto
    show ?thesis
    proof (cases rf)
      case (Some k)
      from scanFwd_Some [OF rf [unfolded Some]]
      have k: "m \<le> k" "0 \<le> k" "k < int (length data)" "data ! nat k = LF"
        by auto
      have cp: "cutPoint data m = Inr (cutAt data k)"
        using mb ne rb None rf Some by (simp add: cutPoint_def)
      have win: "k \<in> set (window data m)" using k mb lo by (simp add: set_window)
      from k cp win mb show ?thesis by blast
    next
      case fNone: None
      from scanFwd_None [OF rf [unfolded fNone]]
      have nf: "\<forall>j. m \<le> j \<and> j < int (length data) \<longrightarrow> data ! nat j \<noteq> LF" .
      have cp: "cutPoint data m = Inr (data, [])"
        using mb ne rb None rf fNone by (simp add: cutPoint_def)
      have "\<forall>i \<in> set (window data m). data ! nat i \<noteq> LF"
        using nb nf by (auto simp: set_window)
      with cp show ?thesis by auto
    qed
  qed
qed

text \<open>
  Claim C4. For every byte sequence and every \<open>maxSize\<close>, \<open>cutPoint\<close> returns without
  a panic a pair whose concatenation is the input. When the input is longer than
  \<open>maxSize\<close>, \<open>maxSize\<close> is at least 32 and some inspected index holds a newline, the head
  is not empty, ends with that newline, and the tail is strictly shorter than the input.
  When \<open>maxSize\<close> is below 32, or the input is not longer than \<open>maxSize\<close>, or no
  inspected index holds a newline, the head is the whole input and the tail is empty.
\<close>

theorem cutPoint_spec:
  "\<exists>head tail. cutPoint data m = Inr (head, tail) \<and> head @ tail = data \<and>
     (32 \<le> m \<and> m < int (length data) \<and>
        (\<exists>i \<in> set (window data m). data ! nat i = LF)
        \<longrightarrow> head \<noteq> [] \<and> last head = LF \<and> length tail < length data) \<and>
     (m < 32 \<or> int (length data) \<le> m \<or>
        (\<forall>i \<in> set (window data m). data ! nat i \<noteq> LF)
        \<longrightarrow> head = data \<and> tail = [])"
proof -
  from cutPoint_split [of data m] consider
      (whole) "cutPoint data m = Inr (data, [])"
        "m < 32 \<or> int (length data) \<le> m \<or> (\<forall>i \<in> set (window data m). data ! nat i \<noteq> LF)"
    | (cut) k where "0 \<le> k" "k < int (length data)" "data ! nat k = LF"
        "cutPoint data m = Inr (cutAt data k)" "32 \<le> m" "m < int (length data)"
        "k \<in> set (window data m)"
    by blast
  then show ?thesis
  proof cases
    case whole
    then show ?thesis by auto
  next
    case cut
    from cutAt_last [OF cut(1,2)] cut(3) cutAt_append [of data k] cut(4-7)
    show ?thesis by (cases "cutAt data k") auto
  qed
qed

theorem cutPoint_spec_witness:
  "(32 \<le> (32::int) \<and> 32 < int (length cutSample) \<and>
      (\<exists>i \<in> set (window cutSample 32). cutSample ! nat i = LF) \<and>
      (\<exists>head tail. cutPoint cutSample 32 = Inr (head, tail) \<and> head @ tail = cutSample \<and>
         head \<noteq> [] \<and> last head = LF)) \<and>
   (\<not> (\<exists>i \<in> set (window noLineSample 32). noLineSample ! nat i = LF) \<and>
      cutPoint noLineSample 32 = Inr (noLineSample, []))"
proof -
  have "(20::int) \<in> set (window cutSample 32)"
    by (simp add: set_window goDiv_def)
  moreover have "cutSample ! nat 20 = LF"
    by (simp add: cutSample_def nth_append)
  ultimately have "\<exists>i \<in> set (window cutSample 32). cutSample ! nat i = LF"
    by (rule bexI [rotated])
  moreover have "32 < int (length cutSample)"
    by (simp add: cutSample_def)
  ultimately have h1: "32 \<le> (32::int) \<and> 32 < int (length cutSample) \<and>
      (\<exists>i \<in> set (window cutSample 32). cutSample ! nat i = LF)"
    by simp
  have h2: "\<forall>i \<in> set (window noLineSample 32). noLineSample ! nat i \<noteq> LF"
    by (auto simp: set_window noLineSample_def)
  from cutPoint_spec [of cutSample 32] h1 cutPoint_spec [of noLineSample 32] h2
  show ?thesis by auto
qed

section \<open>Properties of flushBuffer\<close>

lemma nextPiece_progress:
  assumes "remaining \<noteq> []"
  shows "\<exists>piece rest. nextPiece m remaining = Inr (piece, rest) \<and> piece @ rest = remaining \<and>
           piece \<noteq> [] \<and> length rest < length remaining \<and>
           (int (length remaining) \<le> m \<and> piece = remaining \<and> rest = [] \<or>
            m < int (length remaining) \<and> last piece = LF \<or>
            m < int (length remaining) \<and> piece = remaining \<and> rest = [])"
proof (cases "int (length remaining) > m")
  case False
  with assms show ?thesis by (simp add: nextPiece_def)
next
  case True
  then have np: "nextPiece m remaining = cutPoint remaining m" by (simp add: nextPiece_def)
  from cutPoint_split [of remaining m] consider
      (whole) "cutPoint remaining m = Inr (remaining, [])"
    | (cut) k where "0 \<le> k" "k < int (length remaining)" "remaining ! nat k = LF"
        "cutPoint remaining m = Inr (cutAt remaining k)"
    by blast
  then show ?thesis
  proof cases
    case whole
    with np True assms show ?thesis by simp
  next
    case cut
    from cutAt_last [OF cut(1,2)] cut(3) cutAt_append [of remaining k] cut(4) np True
    show ?thesis by (cases "cutAt remaining k") auto
  qed
qed

lemma flushLoop_returns:
  "\<exists>w1. flushLoop env c remaining w = Some (Inr w1)"
proof (induction remaining arbitrary: w rule: length_induct)
  case (1 remaining)
  show ?case
  proof (cases "remaining = []")
    case True
    then show ?thesis by (subst flushLoop.simps) simp
  next
    case False
    from nextPiece_progress [OF False, of "maxSize c"] obtain piece rest
      where np: "nextPiece (maxSize c) remaining = Inr (piece, rest)"
        and shorter: "length rest < length remaining"
      by blast
    from 1 shorter obtain w1
      where "flushLoop env c rest (logFailure (sendPayload env c piece w)) = Some (Inr w1)"
      by blast
    with False np show ?thesis by (subst flushLoop.simps) simp
  qed
qed

lemma flushLoop_fits:
  assumes "remaining \<noteq> []" "int (length remaining) \<le> maxSize c"
  shows "flushLoop env c remaining w = Some (Inr (logFailure (sendPayload env c remaining w)))"
proof -
  from assms have "nextPiece (maxSize c) remaining = Inr (remaining, [])"
    by (simp add: nextPiece_def)
  moreover have "flushLoop env c [] w' = Some (Inr w')" for w'
    by (subst flushLoop.simps) simp
  ultimately show ?thesis using assms(1) by (subst flushLoop.simps) simp
qed

lemma flushLoop_empty: "flushLoop env c [] w = Some (Inr w)"
  by (subst flushLoop.simps) simp

lemma nextPiece_flushSample:
  "nextPiece 4096 flushSample = Inr (replicate 4090 120 @ [LF], replicate 100 121)"
  by (simp add: nextPiece_def cutPoint_def flushSample_def goDiv_def index_def cutAt_def nth_append)

lemma smallClient_maxSize: "maxSize smallClient = 4096"
  by (simp add: smallClient_def WithMaxSize_def testClient_def newClient_def MinMaxSize_def MaxMaxSize_def)

text \<open>
  Claim C10. \<open>flushBuffer\<close> returns for every buffer content, every client and every
  environment, without a panic and with the buffer reset. On each iteration with bytes
  remaining the split yields a non-empty piece and a strictly shorter rest: the remainder
  fits and is sent whole, or it is cut after a newline, or no cut is found and the whole
  oversized remainder is sent with nothing left.
\<close>

theorem flushBuffer_terminates:
  "(\<exists>w1. flushBuffer env (c, w) = Some (Inr (c\<lparr>buffer := []\<rparr>, w1))) \<and>
   (\<forall>remaining. remaining \<noteq> [] \<longrightarrow>
      (\<exists>piece rest. nextPiece (maxSize c) remaining = Inr (piece, rest) \<and>
         piece @ rest = remaining \<and> piece \<noteq> [] \<and> length rest < length remaining \<and>
         (int (length remaining) \<le> maxSize c \<and> piece = remaining \<and> rest = [] \<or>
          maxSize c < int (length remaining) \<and> last piece = LF \<or>
          maxSize c < int (length remaining) \<and> piece = remaining \<and> rest = [])))"
proof
  from flushLoop_returns [of env c "buffer c" w]
  show "\<exists>w1. flushBuffer env (c, w) = Some (Inr (c\<lparr>buffer := []\<rparr>, w1))"
    by (auto simp: flushBuffer_def)
next
  show "\<forall>remaining. remaining \<noteq> [] \<longrightarrow>
      (\<exists>piece rest. nextPiece (maxSize c) remaining = Inr (piece, rest) \<and>
         piece @ rest = remaining \<and> piece \<noteq> [] \<and> length rest < length remaining \<and>
         (int (length remaining) \<le> maxSize c \<and> piece = remaining \<and> rest = [] \<or>
          maxSize c < int (length remaining) \<and> last piece = LF \<or>
          maxSize c < int (length remaining) \<and> piece = remaining \<and> rest = []))"
    using nextPiece_progress by blast
qed

theorem flushBuffer_terminates_witness:
  "flushSample \<noteq> [] \<and>
   nextPiece (maxSize smallClient) flushSample = Inr (replicate 4090 120 @ [LF], replicate 100 121) \<and>
   (\<exists>w1. flushBuffer (stubEnv ackTrue) (smallClient\<lparr>buffer := flushSample\<rparr>, []) =
      Some (Inr (smallClient\<lparr>buffer := []\<rparr>, w1)))"
  using flushBuffer_terminates [of "stubEnv ackTrue" "smallClient\<lparr>buffer := flushSample\<rparr>" "[]"]
    nextPiece_flushSample smallClient_maxSize
  by (simp add: flushSample_def)

section \<open>Properties of sendPayload\<close>

lemma sendLoop_unfold:
  "sendLoop env c payload err i w =
     (if i < nRetries c then
        let w1 = (if i > 0 then w @ [Slept (backoff i)] else w) in
        (case newRequestError env (url c) of
           Some e \<Rightarrow> (Some e, w1)
         | None \<Rightarrow>
             (case transport env (requestCount w1) payload of
                DoError m \<Rightarrow> sendLoop env c payload err (i + 1) (w1 @ [Request payload])
              | Response b \<Rightarrow>
                  (case jsonDecode b \<lparr>Ok = False\<rparr> of
                     (Some e, ok) \<Rightarrow> sendLoop env c payload err (i + 1) (w1 @ [Request payload])
                   | (None, ok) \<Rightarrow>
                       if \<not> Ok ok then (Some ErrSendFailed, w1 @ [Request payload])
                       else (None, w1 @ [Request payload]))))
      else (err, w))"
  by (rule sendLoop.simps)

lemma attempts_empty: "k \<le> i \<Longrightarrow> attempts payload i k = []"
  by (simp add: attempts_def)

lemma attempts_step:
  "i < k \<Longrightarrow> attempts payload i k =
     (if i > 0 then [Slept (backoff (int i))] else []) @ [Request payload] @ attempts payload (Suc i) k"
  by (simp add: attempts_def upt_conv_Cons)

lemma attempts_one: "attempts payload i (Suc i) = (if i > 0 then [Slept (backoff (int i))] else []) @ [Request payload]"
  by (simp add: attempts_def)

text \<open>The events before the request of attempt i.\<close>

lemma sendLoop_retry:
  assumes "int i < nRetries c" "newRequestError env (url c) = None"
    and "retryable (transport env (requestCount (w @ (if i > 0 then [Slept (backoff (int i))] else []))) payload)"
  shows "sendLoop env c payload err (int i) w =
           sendLoop env c payload err (int (Suc i)) (w @ attempts payload i (Suc i))"
proof -
  let ?w1 = "if int i > 0 then w @ [Slept (backoff (int i))] else w"
  have w1: "?w1 = w @ (if i > 0 then [Slept (backoff (int i))] else [])" by simp
  have e: "?w1 @ [Request payload] = w @ attempts payload i (Suc i)"
    by (simp add: attempts_one)
  have s: "int i + 1 = int (Suc i)" by simp
  from assms(3) w1 have r: "retryable (transport env (requestCount ?w1) payload)" by simp
  show ?thesis
  proof (cases "transport env (requestCount ?w1) payload")
    case (DoError m)
    with assms(1,2) show ?thesis
      by (subst sendLoop_unfold) (simp only: Let_def e s if_True option.case reply.case)
  next
    case (Response b)
    with r obtain x ok where "jsonDecode b \<lparr>Ok = False\<rparr> = (Some x, ok)"
      by (cases "jsonDecode b \<lparr>Ok = False\<rparr>") (auto simp: retryable_def)
    with Response assms(1,2) show ?thesis
      by (subst sendLoop_unfold) (simp only: Let_def e s if_True option.case reply.case prod.case)
  qed
qed

lemma requestCount_append: "requestCount (w @ v) = requestCount w + requestCount v"
  by (simp add: requestCount_def)

lemma sendLoop_exhausted:
  assumes "newRequestError env (url c) = None" "\<forall>k. retryable (transport env k payload)"
  shows "sendLoop env c payload err (int i) w = (err, w @ attempts payload i (nat (nRetries c)))"
proof (induction "nat (nRetries c) - i" arbitrary: i w)
  case 0
  then have "\<not> int i < nRetries c" by linarith
  moreover from 0 have "attempts payload i (nat (nRetries c)) = []"
    by (simp add: attempts_empty)
  ultimately show ?case by (subst sendLoop_unfold) simp
next
  case (Suc n)
  then have lt: "int i < nRetries c" and lt': "i < nat (nRetries c)" by linarith+
  from Suc have "n = nat (nRetries c) - Suc i" by simp
  from Suc.hyps(1) [OF this]
  have "sendLoop env c payload err (int (Suc i)) (w @ attempts payload i (Suc i)) =
          (err, (w @ attempts payload i (Suc i)) @ attempts payload (Suc i) (nat (nRetries c)))" .
  moreover have "attempts payload i (Suc i) @ attempts payload (Suc i) (nat (nRetries c)) =
      attempts payload i (nat (nRetries c))"
    using lt' by (simp add: attempts_step attempts_one)
  ultimately show ?case
    using sendLoop_retry [OF lt assms(1), of w payload err] assms(2) by simp
qed


lemma sendLoop_decoded:
  assumes "int i < nRetries c" "newRequestError env (url c) = None"
    and "transport env (requestCount (w @ (if i > 0 then [Slept (backoff (int i))] else []))) payload
           = Response b"
    and "jsonDecode b \<lparr>Ok = False\<rparr> = (None, r)"
  shows "sendLoop env c payload err (int i) w =
           ((if Ok r then None else Some ErrSendFailed), w @ attempts payload i (Suc i))"
proof -
  let ?w1 = "if int i > 0 then w @ [Slept (backoff (int i))] else w"
  have w1: "?w1 = w @ (if i > 0 then [Slept (backoff (int i))] else [])" by simp
  have e: "?w1 @ [Request payload] = w @ attempts payload i (Suc i)"
    by (simp add: attempts_one)
  from assms(3) w1 have "transport env (requestCount ?w1) payload = Response b" by simp
  with assms(1,2,4) show ?thesis
    by (cases "Ok r"; subst sendLoop_unfold)
       (simp_all only: Let_def e if_True if_False option.case reply.case prod.case not_True_eq_False
          not_False_eq_True)
qed

lemma sendLoop_prefix:
  assumes "newRequestError env (url c) = None"
  shows "\<exists>k. i \<le> k \<and> (k \<le> nat (nRetries c) \<or> k = i) \<and> (int i < nRetries c \<longrightarrow> i < k) \<and>
           snd (sendLoop env c payload err (int i) w) = w @ attempts payload i k"
proof (induction "nat (nRetries c) - i" arbitrary: i w)
  case 0
  then have "\<not> int i < nRetries c" by linarith
  then have "sendLoop env c payload err (int i) w = (err, w)"
    by (subst sendLoop_unfold) simp
  then show ?case using \<open>\<not> int i < nRetries c\<close> by (auto simp: attempts_empty intro!: exI [of _ i])
next
  case (Suc n)
  then have lt: "int i < nRetries c" and lt': "Suc i \<le> nat (nRetries c)" by linarith+
  let ?t = "transport env (requestCount (w @ (if i > 0 then [Slept (backoff (int i))] else []))) payload"
  show ?case
  proof (cases "retryable ?t")
    case True
    from Suc have "n = nat (nRetries c) - Suc i" by simp
    from Suc.hyps(1) [OF this, of "w @ attempts payload i (Suc i)"] obtain k
      where k: "Suc i \<le> k" "k \<le> nat (nRetries c) \<or> k = Suc i"
        "snd (sendLoop env c payload err (int (Suc i)) (w @ attempts payload i (Suc i))) =
           (w @ attempts payload i (Suc i)) @ attempts payload (Suc i) k"
      by blast
    have "attempts payload i (Suc i) @ attempts payload (Suc i) k = attempts payload i k"
      using k(1) by (simp add: attempts_step [of i k] attempts_one)
    with k sendLoop_retry [OF lt assms True, of err] lt'
    show ?thesis by (intro exI [of _ k]) auto
  next
    case False
    then obtain b where tb: "?t = Response b"
      by (cases ?t) (auto simp: retryable_def)
    with False obtain r where "jsonDecode b \<lparr>Ok = False\<rparr> = (None, r)"
      by (cases "jsonDecode b \<lparr>Ok = False\<rparr>") (auto simp: retryable_def)
    with tb have b: "?t = Response b" "jsonDecode b \<lparr>Ok = False\<rparr> = (None, r)"
      by simp_all
    from sendLoop_decoded [OF lt assms b, of err] lt'
    show ?thesis by (intro exI [of _ "Suc i"]) auto
  qed
qed

lemma unmarshalMembers_noOk: "\<not> hasOk ms \<Longrightarrow> unmarshalMembers ms s = s"
  by (induction ms arbitrary: s) (auto simp: hasOk_def)

lemma jsonDecode_noOk: "\<not> hasOk ms \<Longrightarrow> jsonDecode (Parsed (JObject ms)) z = (None, z)"
  by (simp add: jsonDecode_def unmarshal_def unmarshalMembers_noOk)

lemma backoff_value: "0 \<le> i \<Longrightarrow> backoff i = 250 * Millisecond * 2 ^ nat (min i 6)"
  by (simp add: backoff_def MaxSleepRetries_def SleepQuantaMs_def min_def)

lemma backoff_bound: "backoff i \<le> 250 * Millisecond * 64"
proof -
  have "(2::int) ^ nat (if i > 6 then 6 else i) \<le> 2 ^ 6"
    by (rule power_increasing) auto
  then have "(2::int) ^ nat (if i > 6 then 6 else i) \<le> 64" by simp
  then have "250 * Millisecond * (2::int) ^ nat (if i > 6 then 6 else i) \<le> 250 * Millisecond * 64"
    by (simp add: Millisecond_def)
  then show ?thesis
    by (simp only: backoff_def MaxSleepRetries_def SleepQuantaMs_def Let_def)
qed

lemma WithNumRetries_range:
  "1 \<le> nRetries (WithNumRetries n c) \<and> nRetries (WithNumRetries n c) \<le> 10 \<and>
   nRetries (WithNumRetries n c) = max 1 (min 10 n)"
  by (simp add: WithNumRetries_def MaxNumRetries_def)

lemma WithNumRetries_url: "url (WithNumRetries n c) = url c"
  by (simp add: WithNumRetries_def Let_def)

lemma length_attempts: "length (attempts payload 0 k) = 2 * k - 1"
  by (induction k) (auto simp: attempts_def)

lemma attempts_snoc:
  "attempts payload 0 (Suc k) =
     attempts payload 0 k @ (if k > 0 then [Slept (backoff (int k))] else []) @ [Request payload]"
  by (simp add: attempts_def)

lemma attempts_nth:
  "j < k \<Longrightarrow> attempts payload 0 k ! (2 * j) = Request payload \<and>
     (0 < j \<longrightarrow> attempts payload 0 k ! (2 * j - 1) = Slept (backoff (int j)))"
proof (induction k)
  case 0
  then show ?case by simp
next
  case (Suc k)
  show ?case
  proof (cases "j < k")
    case True
    then have "2 * j < length (attempts payload 0 k)" "2 * j - 1 < length (attempts payload 0 k)"
      by (simp_all add: length_attempts)
    with Suc.IH [OF True] show ?thesis
      by (simp add: attempts_snoc nth_append)
  next
    case False
    with Suc.prems have "j = k" by simp
    then show ?thesis
      by (subst (1 2) attempts_snoc) (auto simp: nth_append length_attempts)
  qed
qed

lemma requestCount_attempts: "requestCount (attempts payload i k) = k - i"
  by (induction k) (auto simp: attempts_def requestCount_def)

lemmas stub_defs =
  stubEnv_def stubMarshal_def stubTypeName_def ackTrue_def ackFalse_def emptyObject_def refused_def
  testClient_def smallClient_def newClient_def

lemmas const_defs =
  SizeMargin_def MinMaxSize_def MaxMaxSize_def MaxNumRetries_def MaxSleepRetries_def
  SleepQuantaMs_def Millisecond_def

lemmas decode_defs = jsonDecode_def unmarshal_def matchesOk_def okKeys_def retryable_def


text \<open>
  Claim C1 says that \<open>sendPayload\<close> returns the last error it saw when every attempt
  ends in a network failure or an undecodable body. The code does otherwise: after such
  a run it has made all its attempts and returns nil, since the variable it returns is the
  outer \<open>err\<close>, which the loop body never assigns.
\<close>

theorem sendPayload_exhausted_returns_nil:
  assumes "newRequestError env (url c) = None"
    and "\<forall>k. retryable (transport env k payload)"
  shows "sendPayload env c payload w = (None, w @ attempts payload 0 (nat (nRetries c)))"
  using sendLoop_exhausted [OF assms, of None 0 w] by (simp add: sendPayload_def)

theorem sendPayload_exhausted_returns_nil_witness:
  "newRequestError (stubEnv refused) (url testClient) = None \<and>
   (\<forall>k. retryable (transport (stubEnv refused) k onePayload)) \<and>
   nRetries testClient = 5 \<and>
   sendPayload (stubEnv refused) testClient onePayload [] =
     (None, [Request onePayload, Slept 500000000, Request onePayload, Slept 1000000000,
             Request onePayload, Slept 2000000000, Request onePayload, Slept 4000000000,
             Request onePayload])"
proof -
  have h1: "newRequestError (stubEnv refused) (url testClient) = None"
    by (simp add: stub_defs)
  have h2: "\<forall>k. retryable (transport (stubEnv refused) k onePayload)"
    by (simp add: stub_defs retryable_def)
  have n: "nRetries testClient = 5"
    by (simp add: stub_defs)
  have "attempts onePayload 0 5 =
     [Request onePayload, Slept 500000000, Request onePayload, Slept 1000000000,
      Request onePayload, Slept 2000000000, Request onePayload, Slept 4000000000,
      Request onePayload]"
    by (simp add: attempts_def upt_conv_Cons backoff_def const_defs)
  with sendPayload_exhausted_returns_nil [OF h1 h2, of "[]"] h1 h2 n
  show ?thesis by simp
qed

text \<open>
  Claim C5. When the request can be built and the first reply decodes with the flag
  false, \<open>sendPayload\<close> returns \<open>ErrSendFailed\<close> having added exactly one request and
  no sleep to what happened before, for every positive retry count, hence for every count
  \<open>WithNumRetries\<close> can set.
\<close>

theorem ack_false_is_terminal:
  assumes "newRequestError env (url c) = None"
    and "transport env (requestCount w) payload = Response b"
    and "jsonDecode b \<lparr>Ok = False\<rparr> = (None, \<lparr>Ok = False\<rparr>)"
  shows "(0 < nRetries c \<longrightarrow>
            sendPayload env c payload w = (Some ErrSendFailed, w @ [Request payload])) \<and>
         sendPayload env (WithNumRetries n c) payload w = (Some ErrSendFailed, w @ [Request payload])"
proof -
  have one: "sendPayload env c' payload w = (Some ErrSendFailed, w @ [Request payload])"
    if "0 < nRetries c'" "url c' = url c" for c' :: "'a client"
  proof -
    from that have "int 0 < nRetries c'" "newRequestError env (url c') = None"
      using assms(1) by simp_all
    from sendLoop_decoded [OF this, of w payload b "\<lparr>Ok = False\<rparr>" None] assms(2,3)
    show ?thesis by (simp add: sendPayload_def attempts_one)
  qed
  have "0 < nRetries (WithNumRetries n c)"
    using WithNumRetries_range [of n c] by linarith
  with one [of "WithNumRetries n c"] one [of c] show ?thesis
    by (simp add: WithNumRetries_url)
qed

theorem ack_false_is_terminal_witness:
  "newRequestError (stubEnv ackFalse) (url testClient) = None \<and>
   transport (stubEnv ackFalse) (requestCount []) onePayload =
     Response (Parsed (JObject [(''ok'', JBool False)])) \<and>
   jsonDecode (Parsed (JObject [(''ok'', JBool False)])) \<lparr>Ok = False\<rparr> = (None, \<lparr>Ok = False\<rparr>) \<and>
   0 < nRetries testClient \<and>
   sendPayload (stubEnv ackFalse) testClient onePayload [] = (Some ErrSendFailed, [Request onePayload]) \<and>
   sendPayload (stubEnv ackFalse) (WithNumRetries 10 testClient) onePayload [] =
     (Some ErrSendFailed, [Request onePayload])"
proof -
  have h1: "newRequestError (stubEnv ackFalse) (url testClient) = None"
    by (simp add: stub_defs)
  have h2: "transport (stubEnv ackFalse) (requestCount []) onePayload =
     Response (Parsed (JObject [(''ok'', JBool False)]))"
    by (simp add: stub_defs)
  have h3: "jsonDecode (Parsed (JObject [(''ok'', JBool False)])) \<lparr>Ok = False\<rparr> = (None, \<lparr>Ok = False\<rparr>)"
    by (simp add: decode_defs)
  have n: "0 < nRetries testClient"
    by (simp add: stub_defs)
  from ack_false_is_terminal [OF h1 h2 h3, of 10] h1 h2 h3 n
  show ?thesis by simp
qed

text \<open>
  Claim C3, as amended. At every attempt, a reply whose body decodes without error ends
  the call at once: with success when the decoded flag is true and with \<open>ErrSendFailed\<close>
  when it is false. The flag starts false, so a JSON object with no \<open>ok\<close> member leaves
  it false and the call fails.
\<close>

theorem decodable_response_outcome:
  assumes "int i < nRetries c" and "newRequestError env (url c) = None"
    and "transport env (requestCount (w @ (if i > 0 then [Slept (backoff (int i))] else []))) payload
           = Response b"
    and "jsonDecode b \<lparr>Ok = False\<rparr> = (None, r)"
  shows "sendLoop env c payload err (int i) w =
           ((if Ok r then None else Some ErrSendFailed), w @ attempts payload i (Suc i)) \<and>
         (\<forall>ms. b = Parsed (JObject ms) \<and> \<not> hasOk ms \<longrightarrow> \<not> Ok r)"
proof
  from sendLoop_decoded [OF assms]
  show "sendLoop env c payload err (int i) w =
          ((if Ok r then None else Some ErrSendFailed), w @ attempts payload i (Suc i))" .
next
  show "\<forall>ms. b = Parsed (JObject ms) \<and> \<not> hasOk ms \<longrightarrow> \<not> Ok r"
    using assms(4) by (auto simp: jsonDecode_noOk)
qed

theorem decodable_response_outcome_witness:
  "int 0 < nRetries testClient \<and>
   newRequestError (stubEnv ackTrue) (url testClient) = None \<and>
   transport (stubEnv ackTrue) (requestCount []) onePayload =
     Response (Parsed (JObject [(''ok'', JBool True)])) \<and>
   jsonDecode (Parsed (JObject [(''ok'', JBool True)])) \<lparr>Ok = False\<rparr> = (None, \<lparr>Ok = True\<rparr>) \<and>
   sendLoop (stubEnv ackTrue) testClient onePayload None (int 0) [] = (None, [Request onePayload]) \<and>
   transport (stubEnv emptyObject) (requestCount []) onePayload = Response (Parsed (JObject [])) \<and>
   jsonDecode (Parsed (JObject [])) \<lparr>Ok = False\<rparr> = (None, \<lparr>Ok = False\<rparr>) \<and>
   \<not> hasOk [] \<and>
   sendLoop (stubEnv emptyObject) testClient onePayload None (int 0) [] =
     (Some ErrSendFailed, [Request onePayload])"
proof -
  have n: "int 0 < nRetries testClient"
    by (simp add: stub_defs)
  have a1: "newRequestError (stubEnv ackTrue) (url testClient) = None"
    and b1: "newRequestError (stubEnv emptyObject) (url testClient) = None"
    by (simp_all add: stub_defs)
  have a2: "transport (stubEnv ackTrue) (requestCount ([] @ (if (0::nat) > 0 then [Slept (backoff (int 0))] else []))) onePayload =
     Response (Parsed (JObject [(''ok'', JBool True)]))"
    and b2: "transport (stubEnv emptyObject) (requestCount ([] @ (if (0::nat) > 0 then [Slept (backoff (int 0))] else []))) onePayload =
     Response (Parsed (JObject []))"
    by (simp_all add: stub_defs)
  have a3: "jsonDecode (Parsed (JObject [(''ok'', JBool True)])) \<lparr>Ok = False\<rparr> = (None, \<lparr>Ok = True\<rparr>)"
    and b3: "jsonDecode (Parsed (JObject [])) \<lparr>Ok = False\<rparr> = (None, \<lparr>Ok = False\<rparr>)"
    by (simp_all add: decode_defs)
  from decodable_response_outcome [OF n a1 a2 a3, of None]
    decodable_response_outcome [OF n b1 b2 b3, of None] n a1 a2 a3 b2 b3
  show ?thesis by (simp add: attempts_one hasOk_def)
qed

theorem empty_object_is_send_failed:
  "jsonDecode (Parsed (JObject [])) \<lparr>Ok = False\<rparr> = (None, \<lparr>Ok = False\<rparr>) \<and>
   sendPayload (stubEnv emptyObject) testClient onePayload [] =
     (Some ErrSendFailed, [Request onePayload])"
  by (simp add: sendPayload_def stub_defs const_defs decode_defs backoff_def requestCount_def)

lemma sendLoop_noRequest:
  assumes "newRequestError env (url c) = Some e"
  shows "snd (sendLoop env c payload err 0 w) = w"
  using assms by (subst sendLoop_unfold) simp

text \<open>
  Claim C7, as amended. One call of \<open>sendPayload\<close> adds the events of its first \<open>k\<close>
  attempts and nothing else, where \<open>k\<close> is at most the retry count, and at least 1 when
  the request can be built and the count is positive; \<open>k\<close> is the retry count when every
  reply is a failure the loop retries. Among those events attempt \<open>j\<close> is the request at
  position \<open>2j\<close>; nothing precedes attempt 0, and before attempt \<open>j > 0\<close> comes one sleep
  of 250 ms times 2 to the power min(j, 6), at most 250 ms times 64. \<open>WithNumRetries\<close>
  sets a count between 1 and 10.
\<close>

theorem sendPayload_schedule:
  "(\<exists>k. k \<le> nat (nRetries c) \<and>
      (newRequestError env (url c) = None \<and> 0 < nRetries c \<longrightarrow> 0 < k) \<and>
      snd (sendPayload env c payload w) = w @ attempts payload 0 k) \<and>
   (newRequestError env (url c) = None \<and> (\<forall>k. retryable (transport env k payload)) \<longrightarrow>
      snd (sendPayload env c payload w) = w @ attempts payload 0 (nat (nRetries c))) \<and>
   (\<forall>j k. j < k \<longrightarrow>
      attempts payload 0 k ! (2 * j) = Request payload \<and>
      (0 < j \<longrightarrow> attempts payload 0 k ! (2 * j - 1) = Slept (backoff (int j)) \<and>
         backoff (int j) = 250 * Millisecond * 2 ^ min j 6 \<and>
         backoff (int j) \<le> 250 * Millisecond * 64)) \<and>
   1 \<le> nRetries (WithNumRetries n c) \<and> nRetries (WithNumRetries n c) \<le> 10 \<and>
   nRetries (WithNumRetries n c) = max 1 (min 10 n)"
proof (intro conjI)
  show "\<exists>k. k \<le> nat (nRetries c) \<and>
      (newRequestError env (url c) = None \<and> 0 < nRetries c \<longrightarrow> 0 < k) \<and>
      snd (sendPayload env c payload w) = w @ attempts payload 0 k"
  proof (cases "newRequestError env (url c)")
    case None
    from sendLoop_prefix [OF None, of 0 payload None w] show ?thesis
      by (auto simp: sendPayload_def)
  next
    case (Some e)
    from sendLoop_noRequest [OF Some, of payload None w] Some show ?thesis
      by (intro exI [of _ 0]) (simp add: sendPayload_def attempts_empty)
  qed
next
  show "newRequestError env (url c) = None \<and> (\<forall>k. retryable (transport env k payload)) \<longrightarrow>
      snd (sendPayload env c payload w) = w @ attempts payload 0 (nat (nRetries c))"
    using sendLoop_exhausted [of env c payload None 0 w] by (auto simp: sendPayload_def)
next
  show "\<forall>j k. j < k \<longrightarrow>
      attempts payload 0 k ! (2 * j) = Request payload \<and>
      (0 < j \<longrightarrow> attempts payload 0 k ! (2 * j - 1) = Slept (backoff (int j)) \<and>
         backoff (int j) = 250 * Millisecond * 2 ^ min j 6 \<and>
         backoff (int j) \<le> 250 * Millisecond * 64)"
  proof (intro allI impI conjI)
    fix j k :: nat
    assume jk: "j < k"
    from attempts_nth [OF jk, of payload]
    show "attempts payload 0 k ! (2 * j) = Request payload" by simp
    assume "0 < j"
    with attempts_nth [OF jk, of payload]
    show "attempts payload 0 k ! (2 * j - 1) = Slept (backoff (int j))" by simp
    have "nat (min (int j) 6) = min j 6" by (simp add: min_def)
    with backoff_value [of "int j"]
    show "backoff (int j) = 250 * Millisecond * 2 ^ min j 6" by simp
    show "backoff (int j) \<le> 250 * Millisecond * 64" by (rule backoff_bound)
  qed
qed (use WithNumRetries_range [of n c] in auto)

theorem sendPayload_schedule_witness:
  "newRequestError (stubEnv refused) (url testClient) = None \<and>
   (\<forall>k. retryable (transport (stubEnv refused) k onePayload)) \<and>
   nat (nRetries testClient) = 5 \<and>
   snd (sendPayload (stubEnv refused) testClient onePayload []) = attempts onePayload 0 5 \<and>
   (1::nat) < 5 \<and>
   attempts onePayload 0 5 ! 2 = Request onePayload \<and>
   attempts onePayload 0 5 ! 1 = Slept 500000000 \<and>
   nRetries (WithNumRetries 50 testClient) = 10"
proof -
  have h1: "newRequestError (stubEnv refused) (url testClient) = None"
    by (simp add: stub_defs)
  have h2: "\<forall>k. retryable (transport (stubEnv refused) k onePayload)"
    by (simp add: stub_defs retryable_def)
  have n: "nat (nRetries testClient) = 5"
    by (simp add: stub_defs)
  have b: "backoff (int 1) = 500000000"
    by (simp add: backoff_def const_defs)
  note t = sendPayload_schedule [of testClient "stubEnv refused" onePayload "[]" 50]
  from t h1 h2 n
  have s: "snd (sendPayload (stubEnv refused) testClient onePayload []) = attempts onePayload 0 5"
    by simp
  from t have "\<forall>j k. j < k \<longrightarrow>
      attempts onePayload 0 k ! (2 * j) = Request onePayload \<and>
      (0 < j \<longrightarrow> attempts onePayload 0 k ! (2 * j - 1) = Slept (backoff (int j)) \<and>
         backoff (int j) = 250 * Millisecond * 2 ^ min j 6 \<and>
         backoff (int j) \<le> 250 * Millisecond * 64)"
    by blast
  from this [rule_format, of 1 5] b
  have a: "attempts onePayload 0 5 ! 2 = Request onePayload"
    "attempts onePayload 0 5 ! 1 = Slept 500000000"
    by simp_all
  from t have "nRetries (WithNumRetries 50 testClient) = max 1 (min 10 50)"
    by blast
  with h1 h2 n s a show ?thesis by simp
qed

theorem first_success_makes_one_attempt:
  "nRetries testClient = 5 \<and>
   sendPayload (stubEnv ackTrue) testClient onePayload [] = (None, [Request onePayload]) \<and>
   requestCount (snd (sendPayload (stubEnv ackTrue) testClient onePayload [])) = 1"
  by (simp add: sendPayload_def stub_defs const_defs decode_defs backoff_def requestCount_def)

section \<open>Properties of SendJSON\<close>

lemma SendJSON_cases:
  "SendJSON v x (c, w) =
     (if v > verbosity c then Inr (None, c, w)
      else if \<not> allowWrite c then Inr (Some ErrClientClosed, c, w)
      else if closed (boop c) then Inl SendOnClosedChannel
      else if length (items (boop c)) < cap (boop c)
        then Inr (None, c\<lparr>boop := (boop c)\<lparr>items := items (boop c) @ [x]\<rparr>, busy := False\<rparr>, w)
      else if busy c then Inr (Some ErrClientBacklogged, c, w)
      else Inr (Some ErrClientBacklogged, c\<lparr>busy := True\<rparr>, w @ [Stderr Backlogged]))"
  by (simp add: SendJSON_def trySend_def)

lemma newClient_wellFormed: "wellFormed (newClient u name)"
  by (simp add: wellFormed_def newClient_def)

lemma SendJSON_wellFormed:
  "wellFormed c \<Longrightarrow> \<exists>e c1 w1. SendJSON v x (c, w) = Inr (e, c1, w1) \<and> wellFormed c1 \<and>
     verbosity c1 = verbosity c \<and> allowWrite c1 = allowWrite c \<and> cap (boop c1) = cap (boop c)"
  by (auto simp: SendJSON_cases wellFormed_def)

lemma preClose_wellFormed:
  "wellFormed c \<Longrightarrow> \<exists>c1. preClose c = Inr c1 \<and> wellFormed c1 \<and> \<not> allowWrite c1"
  by (auto simp: preClose_def wellFormed_def)

lemma sendAll_fill:
  assumes "wellFormed c" "allowWrite c" "v \<le> verbosity c"
    and "length (items (boop c)) + length xs \<le> cap (boop c)"
  shows "sendAll v xs (c, w) =
           Inr (replicate (length xs) None,
                (if xs = [] then c else c\<lparr>boop := (boop c)\<lparr>items := items (boop c) @ xs\<rparr>, busy := False\<rparr>), w)"
  using assms
proof (induction xs arbitrary: c)
  case Nil
  then show ?case by simp
next
  case (Cons x xs)
  let ?c1 = "c\<lparr>boop := (boop c)\<lparr>items := items (boop c) @ [x]\<rparr>, busy := False\<rparr>"
  from Cons.prems have s: "SendJSON v x (c, w) = Inr (None, ?c1, w)"
    by (simp add: SendJSON_cases wellFormed_def)
  from Cons.prems have p: "wellFormed ?c1" "allowWrite ?c1" "v \<le> verbosity ?c1"
    "length (items (boop ?c1)) + length xs \<le> cap (boop ?c1)"
    by (simp_all add: wellFormed_def)
  from Cons.IH [OF p] s show ?case by (cases "xs = []") simp_all
qed


lemma sendAll_append:
  "sendAll v (xs @ ys) cw =
     (case sendAll v xs cw of
        Inl p \<Rightarrow> Inl p
      | Inr (es, cw1) \<Rightarrow>
          (case sendAll v ys cw1 of
             Inl p \<Rightarrow> Inl p
           | Inr (es', cw2) \<Rightarrow> Inr (es @ es', cw2)))"
  by (induction xs arbitrary: cw) (auto split: sum.splits)

lemma sendAll_overflow:
  assumes "wellFormed c" "allowWrite c" "v \<le> verbosity c"
    and "items (boop c) = []" "length xs = cap (boop c)"
  shows "\<exists>c2 w2. sendAll v (xs @ [y]) (c, w) =
            Inr (replicate (cap (boop c)) None @ [Some ErrClientBacklogged], c2, w2) \<and>
          items (boop c2) = xs \<and> w2 = w @ [Stderr Backlogged]"
proof -
  from assms have ne: "xs \<noteq> []" by (auto simp: wellFormed_def)
  let ?c1 = "c\<lparr>boop := (boop c)\<lparr>items := items (boop c) @ xs\<rparr>, busy := False\<rparr>"
  from assms have "length (items (boop c)) + length xs \<le> cap (boop c)" by simp
  from sendAll_fill [OF assms(1-3) this, of w] ne
  have fill: "sendAll v xs (c, w) = Inr (replicate (length xs) None, ?c1, w)" by simp
  from assms have "SendJSON v y (?c1, w) =
      Inr (Some ErrClientBacklogged, ?c1\<lparr>busy := True\<rparr>, w @ [Stderr Backlogged])"
    by (simp add: SendJSON_cases wellFormed_def)
  with fill assms(4,5) show ?thesis
    by (simp add: sendAll_append)
qed

text \<open>
  Claim C6, as amended. On a well-formed client \<open>SendJSON\<close> always returns, without a
  panic. A call whose verbosity is above the threshold returns nil and changes nothing,
  in every state. Otherwise: once writes are no longer allowed it returns
  \<open>ErrClientClosed\<close>; else, when the queue holds as many values as its capacity, it
  returns \<open>ErrClientBacklogged\<close> and leaves the queue as it is (logging once when the
  busy flag was clear); else the value is put at the end of the queue and nil is returned.
  Starting from an empty queue of capacity K, K calls return nil and the call after them
  returns \<open>ErrClientBacklogged\<close>.
\<close>

theorem SendJSON_outcomes:
  assumes "wellFormed c"
  shows "(\<exists>e c1 w1. SendJSON v x (c, w) = Inr (e, c1, w1) \<and> wellFormed c1 \<and>
      (verbosity c < v \<longrightarrow> e = None \<and> c1 = c \<and> w1 = w) \<and>
      (v \<le> verbosity c \<and> \<not> allowWrite c \<longrightarrow> e = Some ErrClientClosed \<and> c1 = c \<and> w1 = w) \<and>
      (v \<le> verbosity c \<and> allowWrite c \<and> cap (boop c) \<le> length (items (boop c)) \<longrightarrow>
         e = Some ErrClientBacklogged \<and> boop c1 = boop c \<and> busy c1 \<and>
         w1 = (if busy c then w else w @ [Stderr Backlogged])) \<and>
      (v \<le> verbosity c \<and> allowWrite c \<and> length (items (boop c)) < cap (boop c) \<longrightarrow>
         e = None \<and> c1 = c\<lparr>boop := (boop c)\<lparr>items := items (boop c) @ [x]\<rparr>, busy := False\<rparr> \<and>
         w1 = w)) \<and>
    (v \<le> verbosity c \<and> allowWrite c \<and> items (boop c) = [] \<and> length xs = cap (boop c) \<longrightarrow>
      (\<exists>c2 w2. sendAll v (xs @ [y]) (c, w) =
          Inr (replicate (cap (boop c)) None @ [Some ErrClientBacklogged], c2, w2) \<and>
        items (boop c2) = xs))"
proof
  from assms show "\<exists>e c1 w1. SendJSON v x (c, w) = Inr (e, c1, w1) \<and> wellFormed c1 \<and>
      (verbosity c < v \<longrightarrow> e = None \<and> c1 = c \<and> w1 = w) \<and>
      (v \<le> verbosity c \<and> \<not> allowWrite c \<longrightarrow> e = Some ErrClientClosed \<and> c1 = c \<and> w1 = w) \<and>
      (v \<le> verbosity c \<and> allowWrite c \<and> cap (boop c) \<le> length (items (boop c)) \<longrightarrow>
         e = Some ErrClientBacklogged \<and> boop c1 = boop c \<and> busy c1 \<and>
         w1 = (if busy c then w else w @ [Stderr Backlogged])) \<and>
      (v \<le> verbosity c \<and> allowWrite c \<and> length (items (boop c)) < cap (boop c) \<longrightarrow>
         e = None \<and> c1 = c\<lparr>boop := (boop c)\<lparr>items := items (boop c) @ [x]\<rparr>, busy := False\<rparr> \<and>
         w1 = w)"
    by (auto simp: SendJSON_cases wellFormed_def)
next
  show "v \<le> verbosity c \<and> allowWrite c \<and> items (boop c) = [] \<and> length xs = cap (boop c) \<longrightarrow>
      (\<exists>c2 w2. sendAll v (xs @ [y]) (c, w) =
          Inr (replicate (cap (boop c)) None @ [Some ErrClientBacklogged], c2, w2) \<and>
        items (boop c2) = xs)"
    using sendAll_overflow [OF assms, of v xs y w] by blast
qed

theorem SendJSON_outcomes_witness:
  "wellFormed tinyClient \<and> 1 \<le> verbosity tinyClient \<and> allowWrite tinyClient \<and>
   items (boop tinyClient) = [] \<and> length [Blob 10, Blob 20] = cap (boop tinyClient) \<and>
   SendJSON 1 (Blob 10) (tinyClient, []) =
     Inr (None, tinyClient\<lparr>boop := (boop tinyClient)\<lparr>items := [Blob 10]\<rparr>, busy := False\<rparr>, []) \<and>
   (\<exists>c2 w2. sendAll 1 ([Blob 10, Blob 20] @ [Blob 30]) (tinyClient, []) =
      Inr ([None, None, Some ErrClientBacklogged], c2, w2) \<and> items (boop c2) = [Blob 10, Blob 20]) \<and>
   wellFormed drainingClient \<and> 1 \<le> verbosity drainingClient \<and> \<not> allowWrite drainingClient \<and>
   SendJSON 1 (Blob 10) (drainingClient, []) = Inr (Some ErrClientClosed, drainingClient, [])"
proof -
  have wf: "wellFormed tinyClient"
    by (simp add: tinyClient_def wellFormed_def stub_defs)
  have h: "1 \<le> verbosity tinyClient \<and> allowWrite tinyClient \<and>
    items (boop tinyClient) = [] \<and> length [Blob 10, Blob 20] = cap (boop tinyClient)"
    by (simp add: tinyClient_def stub_defs)
  have room: "length (items (boop tinyClient)) < cap (boop tinyClient)"
    by (simp add: tinyClient_def stub_defs)
  have capv: "replicate (cap (boop tinyClient)) (None :: error option) = [None, None]"
    by (simp add: tinyClient_def stub_defs numeral_2_eq_2)
  have g: "wellFormed drainingClient" "1 \<le> verbosity drainingClient" "\<not> allowWrite drainingClient"
    by (simp_all add: drainingClient_def wellFormed_def stub_defs)
  note t = SendJSON_outcomes [OF wf, of 1 "Blob 10" "[]" "[Blob 10, Blob 20]" "Blob 30"]
  from t h room have a: "SendJSON 1 (Blob 10) (tinyClient, []) =
     Inr (None, tinyClient\<lparr>boop := (boop tinyClient)\<lparr>items := [Blob 10]\<rparr>, busy := False\<rparr>, [])"
    by auto
  from t have "1 \<le> verbosity tinyClient \<and> allowWrite tinyClient \<and>
      items (boop tinyClient) = [] \<and> length [Blob 10, Blob 20] = cap (boop tinyClient) \<longrightarrow>
      (\<exists>c2 w2. sendAll 1 ([Blob 10, Blob 20] @ [Blob 30]) (tinyClient, []) =
          Inr (replicate (cap (boop tinyClient)) None @ [Some ErrClientBacklogged], c2, w2) \<and>
        items (boop c2) = [Blob 10, Blob 20])"
    by (rule conjunct2)
  from this h have "\<exists>c2 w2. sendAll 1 ([Blob 10, Blob 20] @ [Blob 30]) (tinyClient, []) =
          Inr (replicate (cap (boop tinyClient)) None @ [Some ErrClientBacklogged], c2, w2) \<and>
        items (boop c2) = [Blob 10, Blob 20]"
    by (rule mp)
  then have b: "\<exists>c2 w2. sendAll 1 ([Blob 10, Blob 20] @ [Blob 30]) (tinyClient, []) =
      Inr ([None, None, Some ErrClientBacklogged], c2, w2) \<and> items (boop c2) = [Blob 10, Blob 20]"
    by (simp only: capv append.simps)
  from SendJSON_outcomes [OF g(1), of 1 "Blob 10" "[]" "[]" "Blob 30"] g
  have c: "SendJSON 1 (Blob 10) (drainingClient, []) = Inr (Some ErrClientClosed, drainingClient, [])"
    by auto
  from wf h g a b c show ?thesis by (intro conjI) simp_all
qed

theorem quiet_call_on_closed_client_returns_nil:
  "preClose testClient = Inr drainingClient \<and> verbosity drainingClient = 5 \<and>
   \<not> allowWrite drainingClient \<and>
   SendJSON 6 (Blob 1) (drainingClient, []) = Inr (None, drainingClient, [])"
  by (simp add: preClose_def drainingClient_def SendJSON_cases stub_defs)

section \<open>Properties of writeOne and the flush that follows\<close>

lemma envelope_buffer [simp]: "envelope (c\<lparr>buffer := b\<rparr>) ts arg = envelope c ts arg"
  by (simp add: envelope_def)

lemma encodeOrWarn_ok:
  assumes "marshal env (envelope c ts arg) = Inr js"
  shows "encodeOrWarn env ts arg (c, w) = (c\<lparr>buffer := buffer c @ js @ [LF]\<rparr>, w)"
  using assms by (simp add: encodeOrWarn_def Encode_def)

lemma encodeOrWarn_first:
  assumes "marshal env (envelope c ts arg) = Inl e" "typeName env arg \<notin> warnedType c"
  shows "encodeOrWarn env ts arg (c, w) =
           (case marshal env ((envelope c ts arg)\<lparr>Data := Bad \<lparr>Typename = typeName env arg\<rparr>\<rparr>) of
              Inl e' \<Rightarrow> c\<lparr>warnedType := insert (typeName env arg) (warnedType c)\<rparr>
            | Inr js \<Rightarrow> c\<lparr>warnedType := insert (typeName env arg) (warnedType c),
                             buffer := buffer c @ js @ [LF]\<rparr>,
            w @ [Stderr (NotMarshalable (typeName env arg) e)])"
  using assms
  by (simp add: encodeOrWarn_def Encode_def warnError_def typeNameOf_def envelope_def Let_def
      split: sum.splits)

lemma encodeOrWarn_again:
  assumes "marshal env (envelope c ts arg) = Inl e" "typeName env arg \<in> warnedType c"
  shows "encodeOrWarn env ts arg (c, w) = (c, w)"
  using assms
  by (simp add: encodeOrWarn_def Encode_def warnError_def typeNameOf_def envelope_def Let_def)

lemma flushBuffer_returns:
  "\<exists>w1. flushBuffer env (c, w) = Some (Inr (c\<lparr>buffer := []\<rparr>, w1))"
  using flushLoop_returns [of env c "buffer c" w] by (auto simp: flushBuffer_def)

lemma writeOne_returns: "\<exists>r. writeOne env ts arg cw = Some (Inr r)"
proof -
  obtain c2 w2 where "encodeOrWarn env ts arg cw = (c2, w2)" by (cases "encodeOrWarn env ts arg cw")
  with flushBuffer_returns [of env c2 w2] show ?thesis
    by (auto simp: writeOne_def Let_def)
qed

lemma writeAll_returns: "\<exists>r. writeAll env xs cw = Some (Inr r)"
proof (induction xs arbitrary: cw)
  case Nil
  then show ?case by simp
next
  case (Cons x xs)
  obtain ts arg where x: "x = (ts, arg)" by (cases x)
  from writeOne_returns [of env ts arg cw] obtain r where "writeOne env ts arg cw = Some (Inr r)" ..
  with Cons [of r] x show ?case by simp
qed

lemma flushBuffer_empty:
  "buffer c = [] \<Longrightarrow> flushBuffer env (c, w) = Some (Inr (c, w))"
  by (simp add: flushBuffer_def flushLoop_empty)

lemma flushBuffer_fits:
  assumes "buffer c \<noteq> []" "int (length (buffer c)) \<le> maxSize c"
  shows "flushBuffer env (c, w) =
           Some (Inr (c\<lparr>buffer := []\<rparr>, logFailure (sendPayload env c (buffer c) w)))"
  using flushLoop_fits [OF assms, of env w] by (simp add: flushBuffer_def)

lemma writeAll_small:
  assumes "\<forall>x \<in> set xs. serializes env c x"
    and "int (length (buffer c) + length (concat (map (encodedLine env c) xs))) < maxSize c - SizeMargin"
  shows "writeAll env xs (c, w) =
           Some (Inr (c\<lparr>buffer := buffer c @ concat (map (encodedLine env c) xs)\<rparr>, w))"
  using assms
proof (induction xs arbitrary: c)
  case Nil
  then show ?case by simp
next
  case (Cons x xs)
  obtain ts arg where x: "x = (ts, arg)" by (cases x)
  from Cons.prems(1) x obtain js where m: "marshal env (envelope c ts arg) = Inr js"
    by (auto simp: serializes_def split: sum.splits)
  then have line: "encodedLine env c x = js @ [LF]" using x by (simp add: encodedLine_def)
  let ?c1 = "c\<lparr>buffer := buffer c @ js @ [LF]\<rparr>"
  have same: "encodedLine env ?c1 = encodedLine env c" "serializes env ?c1 = serializes env c"
    by (auto simp: encodedLine_def serializes_def fun_eq_iff)
  from Cons.prems(2) line
  have small: "int (length (buffer ?c1)) < maxSize ?c1 - SizeMargin" by simp
  with encodeOrWarn_ok [OF m, of w]
  have one: "writeOne env ts arg (c, w) = Some (Inr (?c1, w))"
    by (simp add: writeOne_def Let_def)
  from Cons.prems line same
  have "\<forall>x \<in> set xs. serializes env ?c1 x"
    and "int (length (buffer ?c1) + length (concat (map (encodedLine env ?c1) xs))) < maxSize ?c1 - SizeMargin"
    by simp_all
  from Cons.IH [OF this] one x line same show ?case by simp
qed

lemma encodedLine_nonempty: "serializes env c x \<Longrightarrow> encodedLine env c x \<noteq> []"
  by (auto simp: serializes_def encodedLine_def split: sum.splits)

text \<open>
  Claim C2, as amended. Take an empty buffer and a sequence of values that all serialize,
  the sum of whose line lengths stays below \<open>maxSize - SizeMargin\<close>. Taking them from the
  queue sends nothing and leaves their lines in the buffer in the order taken. The flush
  that follows makes one \<open>sendPayload\<close> call, with the whole buffer as payload, and
  resets the buffer; with no values the flush does nothing at all. Flushing an empty
  buffer never adds an event.
\<close>

theorem small_batch_single_flush:
  assumes "buffer c = []"
    and "\<forall>x \<in> set xs. serializes env c x"
    and "int (length (concat (map (encodedLine env c) xs))) < maxSize c - SizeMargin"
  shows "\<exists>c1. c1 = c\<lparr>buffer := concat (map (encodedLine env c) xs)\<rparr> \<and>
           writeAll env xs (c, w) = Some (Inr (c1, w)) \<and>
           writeThenFlush env xs (c, w) =
             (if xs = [] then Some (Inr (c, w))
              else Some (Inr (c, logFailure (sendPayload env c1 (buffer c1) w)))) \<and>
           flushBuffer env (c, w) = Some (Inr (c, w))"
proof -
  let ?c1 = "c\<lparr>buffer := concat (map (encodedLine env c) xs)\<rparr>"
  from assms have "int (length (buffer c) + length (concat (map (encodedLine env c) xs))) < maxSize c - SizeMargin"
    by simp
  from writeAll_small [OF assms(2) this, of w] assms(1)
  have wa: "writeAll env xs (c, w) = Some (Inr (?c1, w))" by simp
  have reset: "?c1\<lparr>buffer := []\<rparr> = c" using assms(1) by simp
  have fl: "writeThenFlush env xs (c, w) =
      (if xs = [] then Some (Inr (c, w))
       else Some (Inr (c, logFailure (sendPayload env ?c1 (buffer ?c1) w))))"
  proof (cases "xs = []")
    case True
    with assms(1) show ?thesis
      by (simp add: writeThenFlush_def flushBuffer_empty)
  next
    case False
    then obtain x where "x \<in> set xs" by (cases xs) auto
    with assms(2) have "encodedLine env c x \<noteq> []" by (simp add: encodedLine_nonempty)
    with \<open>x \<in> set xs\<close> have ne: "buffer ?c1 \<noteq> []" by auto
    from assms(3) have "int (length (buffer ?c1)) \<le> maxSize ?c1"
      by (simp add: SizeMargin_def)
    from flushBuffer_fits [OF ne this, of env w] wa reset False show ?thesis
      by (simp add: writeThenFlush_def)
  qed
  from wa fl flushBuffer_empty [OF assms(1), of env w] show ?thesis by blast
qed

lemma smallClient_fields:
  "buffer smallClient = []" "nRetries smallClient = 5" "warnedType smallClient = {}"
  "url smallClient = ''http://collector.test/v1/http/test-path''"
  by (simp_all add: smallClient_def WithMaxSize_def testClient_def newClient_def Let_def)

theorem margin_zone_gives_two_batches:
  "buffer smallClient = [] \<and> maxSize smallClient = 4096 \<and>
   length (concat (map (encodedLine (stubEnv ackTrue) smallClient) marginBatch)) = 4080 \<and>
   writeThenFlush (stubEnv ackTrue) marginBatch (smallClient, []) =
     Some (Inr (smallClient,
       [Request (replicate 1989 120 @ [LF] @ replicate 1989 120 @ [LF]),
        Request (replicate 99 120 @ [LF])]))"
  by (simp add: marginBatch_def encodedLine_def envelope_def stub_defs const_defs decode_defs
      writeThenFlush_def writeOne_def encodeOrWarn_def Encode_def flushBuffer_def
      flushLoop_fits flushLoop_empty logFailure_def sendPayload_def requestCount_def
      WithMaxSize_def Let_def)


theorem small_batch_single_flush_witness:
  "buffer smallClient = [] \<and>
   serializes (stubEnv ackTrue) smallClient (1, Blob 9) \<and>
   serializes (stubEnv ackTrue) smallClient (2, Blob 19) \<and>
   int (length (concat (map (encodedLine (stubEnv ackTrue) smallClient) [(1, Blob 9), (2, Blob 19)])))
     < maxSize smallClient - SizeMargin \<and>
   writeAll (stubEnv ackTrue) [(1, Blob 9), (2, Blob 19)] (smallClient, []) =
     Some (Inr (smallClient\<lparr>buffer := replicate 9 120 @ [LF] @ replicate 19 120 @ [LF]\<rparr>, [])) \<and>
   writeThenFlush (stubEnv ackTrue) [(1, Blob 9), (2, Blob 19)] (smallClient, []) =
     Some (Inr (smallClient, [Request (replicate 9 120 @ [LF] @ replicate 19 120 @ [LF])]))"
proof -
  let ?env = "stubEnv ackTrue"
  let ?xs = "[(1, Blob 9), (2, Blob 19)] :: (int \<times> val) list"
  have h1: "buffer smallClient = []" by (rule smallClient_fields)
  have s: "serializes ?env smallClient (1, Blob 9)" "serializes ?env smallClient (2, Blob 19)"
    by (simp_all add: serializes_def envelope_def stub_defs)
  then have h2: "\<forall>x \<in> set ?xs. serializes ?env smallClient x" by simp
  have lines: "concat (map (encodedLine ?env smallClient) ?xs) =
      replicate 9 120 @ [LF] @ replicate 19 120 @ [LF]"
    by (simp add: encodedLine_def envelope_def stub_defs)
  then have h3: "int (length (concat (map (encodedLine ?env smallClient) ?xs)))
      < maxSize smallClient - SizeMargin"
    by (simp add: smallClient_maxSize SizeMargin_def)
  have send: "sendPayload ?env (smallClient\<lparr>buffer := replicate 9 120 @ [LF] @ replicate 19 120 @ [LF]\<rparr>)
      (replicate 9 120 @ [LF] @ replicate 19 120 @ [LF]) [] =
      (None, [Request (replicate 9 120 @ [LF] @ replicate 19 120 @ [LF])])"
    by (simp add: sendPayload_def stub_defs decode_defs requestCount_def WithMaxSize_def const_defs
        Let_def)
  from small_batch_single_flush [OF h1 h2 h3, of "[]"] lines send h1 s h3
  show ?thesis by (simp add: logFailure_def)
qed

lemma warnedTypes_append: "warnedTypes (w @ v) = warnedTypes w @ warnedTypes v"
  by (induction w rule: warnedTypes.induct) simp_all

lemma sendLoop_warnedTypes:
  "warnedTypes (snd (sendLoop env c payload err i w)) = warnedTypes w"
proof (induction env c payload err i w rule: sendLoop.induct)
  case (1 env c payload err i w)
  let ?w1 = "if i > 0 then w @ [Slept (backoff i)] else w"
  have w1: "warnedTypes (?w1 @ [Request payload]) = warnedTypes w"
    by (simp add: warnedTypes_append)
  show ?case
  proof (cases "i < nRetries c")
    case False
    then show ?thesis by (subst sendLoop_unfold) simp
  next
    case lt: True
    show ?thesis
    proof (cases "newRequestError env (url c)")
      case (Some e)
      with lt show ?thesis by (subst sendLoop_unfold) (simp add: warnedTypes_append)
    next
      case None
      show ?thesis
      proof (cases "transport env (requestCount ?w1) payload")
        case (DoError m)
        from "1.IH"(1) [OF lt refl None DoError] w1 lt None DoError
        show ?thesis by (subst sendLoop_unfold) (simp add: Let_def)
      next
        case (Response b)
        obtain eo ok where d: "jsonDecode b \<lparr>Ok = False\<rparr> = (eo, ok)"
          by (cases "jsonDecode b \<lparr>Ok = False\<rparr>")
        show ?thesis
        proof (cases eo)
          case None': None
          with lt None Response d w1 show ?thesis
            by (subst sendLoop_unfold) (simp add: Let_def)
        next
          case (Some e)
          from "1.IH"(2) [OF lt refl None Response d [symmetric] Some] w1 lt None Response d Some
          show ?thesis by (subst sendLoop_unfold) (simp add: Let_def)
        qed
      qed
    qed
  qed
qed

lemma logFailure_warnedTypes:
  "warnedTypes (logFailure (sendPayload env c payload w)) = warnedTypes w"
  using sendLoop_warnedTypes [of env c payload None 0 w]
  by (cases "sendPayload env c payload w")
     (auto simp: logFailure_def sendPayload_def warnedTypes_append split: option.splits)

lemma flushLoop_warnedTypes:
  "flushLoop env c remaining w = Some (Inr w1) \<Longrightarrow> warnedTypes w1 = warnedTypes w"
proof (induction remaining arbitrary: w rule: length_induct)
  case (1 remaining)
  show ?case
  proof (cases "remaining = []")
    case True
    with "1.prems" show ?thesis by (simp add: flushLoop_empty)
  next
    case False
    from nextPiece_progress [OF False, of "maxSize c"] obtain piece rest
      where np: "nextPiece (maxSize c) remaining = Inr (piece, rest)"
        and shorter: "length rest < length remaining"
      by blast
    from "1.prems" False np
    have "flushLoop env c rest (logFailure (sendPayload env c piece w)) = Some (Inr w1)"
      by (subst (asm) flushLoop.simps) simp
    with 1 shorter have "warnedTypes w1 = warnedTypes (logFailure (sendPayload env c piece w))"
      by blast
    then show ?thesis by (simp add: logFailure_warnedTypes)
  qed
qed

lemma encodeOrWarn_warnedOnce:
  assumes "warnedOnce (c, w)"
  shows "warnedOnce (encodeOrWarn env ts arg (c, w))"
proof (cases "marshal env (envelope c ts arg)")
  case (Inr js)
  from encodeOrWarn_ok [OF Inr, of w] assms show ?thesis by (simp add: warnedOnce_def)
next
  case (Inl e)
  show ?thesis
  proof (cases "typeName env arg \<in> warnedType c")
    case True
    from encodeOrWarn_again [OF Inl True, of w] assms show ?thesis by simp
  next
    case False
    from encodeOrWarn_first [OF Inl False, of w] assms False show ?thesis
      by (auto simp: warnedOnce_def warnedTypes_append split: sum.splits)
  qed
qed

lemma writeOne_warnedOnce:
  assumes "warnedOnce cw" "writeOne env ts arg cw = Some (Inr cw1)"
  shows "warnedOnce cw1"
proof -
  obtain c w where cw: "cw = (c, w)" by (cases cw)
  obtain c2 w2 where e: "encodeOrWarn env ts arg (c, w) = (c2, w2)"
    by (cases "encodeOrWarn env ts arg (c, w)")
  from encodeOrWarn_warnedOnce [of c w env ts arg] assms(1) cw e
  have inv: "warnedOnce (c2, w2)" by simp
  show ?thesis
  proof (cases "int (length (buffer c2)) \<ge> maxSize c2 - SizeMargin")
    case False
    with assms(2) cw e inv show ?thesis by (simp add: writeOne_def Let_def)
  next
    case True
    with assms(2) cw e have f: "flushBuffer env (c2, w2) = Some (Inr cw1)"
      by (simp add: writeOne_def Let_def)
    then obtain w3 where "flushLoop env c2 (buffer c2) w2 = Some (Inr w3)"
      and "cw1 = (c2\<lparr>buffer := []\<rparr>, w3)"
      by (auto simp: flushBuffer_def split: option.splits sum.splits)
    with flushLoop_warnedTypes [of env c2 "buffer c2" w2 w3] inv show ?thesis
      by (simp add: warnedOnce_def)
  qed
qed

lemma writeAll_warnedOnce:
  "warnedOnce cw \<Longrightarrow> writeAll env xs cw = Some (Inr cw1) \<Longrightarrow> warnedOnce cw1"
proof (induction xs arbitrary: cw)
  case Nil
  then show ?case by simp
next
  case (Cons x xs)
  obtain ts arg where x: "x = (ts, arg)" by (cases x)
  from writeOne_returns [of env ts arg cw] obtain r where r: "writeOne env ts arg cw = Some (Inr r)" ..
  from writeOne_warnedOnce [OF Cons.prems(1) r] have "warnedOnce r" .
  moreover from Cons.prems(2) x r have "writeAll env xs r = Some (Inr cw1)" by simp
  ultimately show ?case by (rule Cons.IH)
qed

text \<open>
  Claim C9, as amended. When a value taken from the queue does not serialize: if its
  type has not been warned about, one warning naming the type is logged, the type is
  recorded, and the placeholder envelope for that type is appended to the buffer; if the
  type has been warned about before, nothing is logged and nothing is appended, so that
  value leaves no record. Either way \<open>writeOne\<close> goes on to the size check and returns.
  Over any sequence of values every recorded type is logged exactly once.
\<close>

theorem failing_value_outcome:
  assumes "marshal env (envelope c ts arg) = Inl e"
  shows "(typeName env arg \<notin> warnedType c \<longrightarrow>
            (\<exists>c1. encodeOrWarn env ts arg (c, w) =
                     (c1, w @ [Stderr (NotMarshalable (typeName env arg) e)]) \<and>
               warnedType c1 = insert (typeName env arg) (warnedType c) \<and>
               (\<forall>js. marshal env ((envelope c ts arg)\<lparr>Data := Bad \<lparr>Typename = typeName env arg\<rparr>\<rparr>) = Inr js
                  \<longrightarrow> buffer c1 = buffer c @ js @ [LF]))) \<and>
         (typeName env arg \<in> warnedType c \<longrightarrow> encodeOrWarn env ts arg (c, w) = (c, w)) \<and>
         (\<exists>r. writeOne env ts arg (c, w) = Some (Inr r)) \<and>
         (\<forall>xs cw cw1. warnedOnce cw \<and> writeAll env xs cw = Some (Inr cw1) \<longrightarrow> warnedOnce cw1)"
proof (intro conjI impI)
  assume new: "typeName env arg \<notin> warnedType c"
  from encodeOrWarn_first [OF assms new, of w]
  show "\<exists>c1. encodeOrWarn env ts arg (c, w) =
                 (c1, w @ [Stderr (NotMarshalable (typeName env arg) e)]) \<and>
           warnedType c1 = insert (typeName env arg) (warnedType c) \<and>
           (\<forall>js. marshal env ((envelope c ts arg)\<lparr>Data := Bad \<lparr>Typename = typeName env arg\<rparr>\<rparr>) = Inr js
              \<longrightarrow> buffer c1 = buffer c @ js @ [LF])"
    by (auto split: sum.splits)
next
  assume "typeName env arg \<in> warnedType c"
  with assms show "encodeOrWarn env ts arg (c, w) = (c, w)" by (rule encodeOrWarn_again)
next
  show "\<exists>r. writeOne env ts arg (c, w) = Some (Inr r)" by (rule writeOne_returns)
next
  show "\<forall>xs cw cw1. warnedOnce cw \<and> writeAll env xs cw = Some (Inr cw1) \<longrightarrow> warnedOnce cw1"
    using writeAll_warnedOnce by blast
qed

lemma testClient_fields:
  "buffer testClient = []" "nRetries testClient = 5" "warnedType testClient = {}"
  "maxSize testClient = 1048576" "ident testClient = ''test-client:3''"
  by (simp_all add: testClient_def newClient_def)

theorem failing_value_outcome_witness:
  "marshal (stubEnv ackTrue) (envelope testClient 1 Chan) = Inl (Foreign ''json: unsupported type: chan int'') \<and>
   typeName (stubEnv ackTrue) Chan \<notin> warnedType testClient \<and>
   marshal (stubEnv ackTrue) ((envelope testClient 1 Chan)\<lparr>Data := Bad \<lparr>Typename = ''chan int''\<rparr>\<rparr>)
     = Inr (replicate 59 98) \<and>
   (\<exists>c1. encodeOrWarn (stubEnv ackTrue) 1 Chan (testClient, []) = (c1, [chanWarning]) \<and>
      warnedType c1 = {''chan int''} \<and> buffer c1 = replicate 59 98 @ [LF]) \<and>
   marshal (stubEnv ackTrue) (envelope warnedClient 2 Chan) = Inl (Foreign ''json: unsupported type: chan int'') \<and>
   typeName (stubEnv ackTrue) Chan \<in> warnedType warnedClient \<and>
   encodeOrWarn (stubEnv ackTrue) 2 Chan (warnedClient, [chanWarning]) = (warnedClient, [chanWarning])"
proof -
  let ?env = "stubEnv ackTrue"
  have a1: "marshal ?env (envelope testClient 1 Chan) = Inl (Foreign ''json: unsupported type: chan int'')"
    and a2: "typeName ?env Chan \<notin> warnedType testClient"
    and a3: "marshal ?env ((envelope testClient 1 Chan)\<lparr>Data := Bad \<lparr>Typename = typeName ?env Chan\<rparr>\<rparr>)
      = Inr (replicate 59 98)"
    and tn: "typeName ?env Chan = ''chan int''"
    by (simp_all add: envelope_def stub_defs)
  have b1: "marshal ?env (envelope warnedClient 2 Chan) = Inl (Foreign ''json: unsupported type: chan int'')"
    and b2: "typeName ?env Chan \<in> warnedType warnedClient"
    by (simp_all add: envelope_def warnedClient_def stub_defs)
  from failing_value_outcome [OF a1, of "[]"] a2 a3
  have "\<exists>c1. encodeOrWarn ?env 1 Chan (testClient, []) =
           (c1, [] @ [Stderr (NotMarshalable (typeName ?env Chan) (Foreign ''json: unsupported type: chan int''))]) \<and>
         warnedType c1 = insert (typeName ?env Chan) (warnedType testClient) \<and>
         buffer c1 = buffer testClient @ replicate 59 98 @ [LF]"
    by blast
  then have a: "\<exists>c1. encodeOrWarn ?env 1 Chan (testClient, []) = (c1, [chanWarning]) \<and>
      warnedType c1 = {''chan int''} \<and> buffer c1 = replicate 59 98 @ [LF]"
    by (simp add: tn chanWarning_def testClient_fields)
  from failing_value_outcome [OF b1, of "[chanWarning]"] b2
  have b: "encodeOrWarn ?env 2 Chan (warnedClient, [chanWarning]) = (warnedClient, [chanWarning])"
    by blast
  from a1 a2 a3 tn b1 b2 a b show ?thesis by simp
qed

theorem repeated_failing_type_leaves_no_record:
  "writeAll (stubEnv ackTrue) [(1, Chan)] (testClient, []) = Some (Inr (warnedClient, [chanWarning])) \<and>
   writeAll (stubEnv ackTrue) [(1, Chan), (2, Chan)] (testClient, []) =
     Some (Inr (warnedClient, [chanWarning]))"
  by (simp add: writeOne_def encodeOrWarn_def Encode_def warnError_def typeNameOf_def envelope_def
      warnedClient_def chanWarning_def stub_defs const_defs Let_def)

section \<open>Properties of the fake clock\<close>

lemma scanEarliest_result:
  "scanEarliest e its = r \<Longrightarrow>
     (e = None \<and> its = [] \<and> r = None) \<or>
     (\<exists>i t. r = Some (i, t) \<and> (e = Some (i, t) \<or> (i, t) \<in> set its) \<and>
        (\<forall>p \<in> set its. next_tick t \<le> next_tick (snd p)) \<and>
        (\<forall>j u. e = Some (j, u) \<longrightarrow> next_tick t \<le> next_tick u))"
proof (induction e its arbitrary: r rule: scanEarliest.induct)
  case (1 e)
  then show ?case by (cases e) auto
next
  case (2 e i t its)
  let ?e' = "case e of None \<Rightarrow> Some (i, t)
             | Some (j, u) \<Rightarrow> if next_tick t < next_tick u then Some (i, t) else Some (j, u)"
  from "2.prems" have "scanEarliest ?e' its = r" by simp
  from "2.IH" [OF this] obtain i' t' where r: "r = Some (i', t')"
    and mem: "?e' = Some (i', t') \<or> (i', t') \<in> set its"
    and le: "\<forall>p \<in> set its. next_tick t' \<le> next_tick (snd p)"
    and le': "\<forall>j u. ?e' = Some (j, u) \<longrightarrow> next_tick t' \<le> next_tick u"
    by (cases e) (auto split: if_splits)
  show ?case
  proof (cases e)
    case None
    with r mem le le' show ?thesis by auto
  next
    case (Some ju)
    obtain j u where ju: "ju = (j, u)" by (cases ju)
    show ?thesis
    proof (cases "next_tick t < next_tick u")
      case True
      with Some ju r mem le le' show ?thesis by auto
    next
      case False
      with Some ju r mem le le' show ?thesis by (auto simp: not_less)
    qed
  qed
qed


lemma earliest_None: "earliest ts = None \<longleftrightarrow> ts = []"
proof
  assume "earliest ts = None"
  from scanEarliest_result [OF this [unfolded earliest_def]] show "ts = []"
    by (cases ts) auto
next
  assume "ts = []"
  then show "earliest ts = None" by (simp add: earliest_def)
qed

lemma earliest_Some:
  assumes "earliest ts = Some (i, t)"
  shows "i < length ts \<and> ts ! i = t \<and> (\<forall>u \<in> set ts. next_tick t \<le> next_tick u)"
proof -
  from scanEarliest_result [OF assms [unfolded earliest_def]]
  have mem: "(i, t) \<in> set (enumerate 0 ts)"
    and le: "\<forall>p \<in> set (enumerate 0 ts). next_tick t \<le> next_tick (snd p)"
    by auto
  from mem have it: "i < length ts" "ts ! i = t" by (auto simp: in_set_enumerate_eq)
  have "next_tick t \<le> next_tick u" if "u \<in> set ts" for u
  proof -
    from that obtain j where "j < length ts" "ts ! j = u" by (auto simp: in_set_conv_nth)
    then have "(j, u) \<in> set (enumerate 0 ts)" by (auto simp: in_set_enumerate_eq)
    with le show ?thesis by fastforce
  qed
  with it show ?thesis by blast
qed

lemma pending_step:
  assumes "i < length (tickers f)" "next_tick (tickers f ! i) \<le> u"
    and "next_tick (tickers f ! i) < next_tick t2"
  shows "pending u (f\<lparr>now := n, tickers := (tickers f)[i := t2]\<rparr>) < pending u f"
proof -
  let ?g = "\<lambda>t. nat (u + 1 - next_tick t)"
  let ?xs = "map ?g (tickers f)"
  have len: "i < length ?xs" using assms(1) by simp
  have old: "?xs ! i = ?g (tickers f ! i)" using assms(1) by simp
  have lt: "?g t2 < ?g (tickers f ! i)" using assms(2,3) by linarith
  have ge: "?xs ! i \<le> sum_list ?xs" using len by (simp add: member_le_sum_list)
  have "sum_list (?xs[i := ?g t2]) = sum_list ?xs + ?g t2 - ?xs ! i"
    using len by (rule sum_list_update)
  with lt old ge have "sum_list (?xs[i := ?g t2]) < sum_list ?xs" by linarith
  then show ?thesis by (simp add: pending_def map_update)
qed

lemma sleepLoop_stop:
  assumes "earliest (tickers f) = None \<or> (\<exists>i t. earliest (tickers f) = Some (i, t) \<and> u < next_tick t)"
  shows "sleepLoop u f out = Some (f\<lparr>now := u\<rparr>, out)"
  using assms by (subst sleepLoop.simps) auto

lemma sleepLoop_fire:
  assumes "earliest (tickers f) = Some (i, t)" "next_tick t \<le> u"
  shows "sleepLoop u f out =
           sleepLoop u
             (f\<lparr>now := next_tick t,
                tickers := (tickers f)[i := t\<lparr>next_tick := next_tick t + d_tick t,
                                             c_tick := fst (trySendTick (c_tick t) (next_tick t))\<rparr>]\<rparr>)
             (out @ [\<lparr>ticker = i, due = next_tick t,
                      delivered = snd (trySendTick (c_tick t) (next_tick t))\<rparr>])"
  using assms by (subst sleepLoop.simps) (simp add: Let_def split: prod.splits)

lemma sleepLoop_total:
  assumes "\<forall>t \<in> set (tickers f). 0 < d_tick t"
  shows "\<exists>f' new. sleepLoop u f out = Some (f', out @ new) \<and> now f' = u \<and>
           sorted (map due new) \<and> (\<forall>e \<in> set new. due e \<le> u) \<and>
           (\<forall>l. (\<forall>t \<in> set (tickers f). l \<le> next_tick t) \<longrightarrow> (\<forall>e \<in> set new. l \<le> due e)) \<and>
           (\<forall>t \<in> set (tickers f'). u < next_tick t) \<and>
           map d_tick (tickers f') = map d_tick (tickers f)"
  using assms
proof (induction "pending u f" arbitrary: f out rule: less_induct)
  case less
  show ?case
  proof (cases "earliest (tickers f)")
    case None
    then have "tickers f = []" by (simp add: earliest_None)
    with sleepLoop_stop [of f u out] None show ?thesis
      by (intro exI [of _ "f\<lparr>now := u\<rparr>"] exI [of _ "[]"]) simp
  next
    case (Some it)
    obtain i t where it: "it = (i, t)" by (cases it)
    with Some have e: "earliest (tickers f) = Some (i, t)" by simp
    from earliest_Some [OF e] have i: "i < length (tickers f)" and ti: "tickers f ! i = t"
      and least: "\<forall>x \<in> set (tickers f). next_tick t \<le> next_tick x"
      by auto
    show ?thesis
    proof (cases "u < next_tick t")
      case True
      with e sleepLoop_stop [of f u out] least show ?thesis
        by (intro exI [of _ "f\<lparr>now := u\<rparr>"] exI [of _ "[]"]) fastforce
    next
      case False
      then have due: "next_tick t \<le> u" by simp
      let ?t2 = "t\<lparr>next_tick := next_tick t + d_tick t,
                   c_tick := fst (trySendTick (c_tick t) (next_tick t))\<rparr>"
      let ?f1 = "f\<lparr>now := next_tick t, tickers := (tickers f)[i := ?t2]\<rparr>"
      let ?ev = "\<lparr>ticker = i, due = next_tick t,
                   delivered = snd (trySendTick (c_tick t) (next_tick t))\<rparr>"
      from i ti have tmem: "t \<in> set (tickers f)" by (auto simp: in_set_conv_nth)
      with less.prems have dpos: "0 < d_tick t" by simp
      have sub: "set (tickers ?f1) \<subseteq> insert ?t2 (set (tickers f))"
        by (simp add: set_update_subset_insert)
      have pos1: "\<forall>x \<in> set (tickers ?f1). 0 < d_tick x"
        using sub less.prems dpos by auto
      have low1: "\<forall>x \<in> set (tickers ?f1). next_tick t \<le> next_tick x"
        using sub least dpos by auto
      have "pending u ?f1 < pending u f"
        using i due dpos ti by (intro pending_step) simp_all
      from less.hyps [OF this pos1, of "out @ [?ev]"] obtain f' new1
        where r: "sleepLoop u ?f1 (out @ [?ev]) = Some (f', (out @ [?ev]) @ new1)"
          and n: "now f' = u" and so: "sorted (map due new1)"
          and up: "\<forall>e \<in> set new1. due e \<le> u"
          and lo: "\<forall>l. (\<forall>x \<in> set (tickers ?f1). l \<le> next_tick x) \<longrightarrow> (\<forall>e \<in> set new1. l \<le> due e)"
          and after: "\<forall>x \<in> set (tickers f'). u < next_tick x"
          and per: "map d_tick (tickers f') = map d_tick (tickers ?f1)"
        by blast
      from lo low1 have ge: "\<forall>e \<in> set new1. next_tick t \<le> due e" by blast
      have per': "map d_tick (tickers ?f1) = map d_tick (tickers f)"
        using i ti by (simp add: map_update list_update_same_conv)
      have lo': "\<forall>l. (\<forall>x \<in> set (tickers f). l \<le> next_tick x) \<longrightarrow> (\<forall>e \<in> set (?ev # new1). l \<le> due e)"
      proof (intro allI impI ballI)
        fix l e
        assume l: "\<forall>x \<in> set (tickers f). l \<le> next_tick x" and e: "e \<in> set (?ev # new1)"
        from l tmem have "l \<le> next_tick t" by blast
        with e ge show "l \<le> due e" by auto
      qed
      from sleepLoop_fire [OF e due, of out] r
      have res: "sleepLoop u f out = Some (f', out @ (?ev # new1))" by simp
      have s: "sorted (map due (?ev # new1))" using so ge by simp
      have b: "\<forall>e \<in> set (?ev # new1). due e \<le> u" using up due by simp
      have p: "map d_tick (tickers f') = map d_tick (tickers f)" using per per' by simp
      show ?thesis
        by (rule exI [of _ f'], rule exI [of _ "?ev # new1"], intro conjI)
           (fact res n s b lo' after p)+
    qed
  qed
qed


text \<open>
  Claim C8, as amended. On a clock whose tickers all have positive periods, \<open>Sleep\<close>
  returns with the time at exactly start plus the duration. The due times it fired at, in
  the order fired, never decrease, none is after the target, and none is before a time
  that every ticker was due at or after; afterwards every ticker is due after the target
  and the periods are unchanged. At each step the ticker chosen has the least due time of
  all; when that is at or before the target, the time moves there, that ticker's due time
  grows by its period and a tick is offered to its channel without waiting.
\<close>

theorem Sleep_fires_in_order:
  assumes "\<forall>t \<in> set (tickers f). 0 < d_tick t"
  shows "(\<exists>f' out. Sleep dur f = Some (f', out) \<and> now f' = now f + dur \<and>
            sorted (map due out) \<and> (\<forall>e \<in> set out. due e \<le> now f + dur) \<and>
            (\<forall>l. (\<forall>t \<in> set (tickers f). l \<le> next_tick t) \<longrightarrow> (\<forall>e \<in> set out. l \<le> due e)) \<and>
            (\<forall>t \<in> set (tickers f'). now f + dur < next_tick t) \<and>
            map d_tick (tickers f') = map d_tick (tickers f)) \<and>
         (\<forall>i t. earliest (tickers f) = Some (i, t) \<longrightarrow>
            i < length (tickers f) \<and> tickers f ! i = t \<and>
            (\<forall>x \<in> set (tickers f). next_tick t \<le> next_tick x)) \<and>
         (\<forall>i t u out. earliest (tickers f) = Some (i, t) \<and> next_tick t \<le> u \<longrightarrow>
            sleepLoop u f out =
              sleepLoop u
                (f\<lparr>now := next_tick t,
                   tickers := (tickers f)[i := t\<lparr>next_tick := next_tick t + d_tick t,
                                                c_tick := fst (trySendTick (c_tick t) (next_tick t))\<rparr>]\<rparr>)
                (out @ [\<lparr>ticker = i, due = next_tick t,
                         delivered = snd (trySendTick (c_tick t) (next_tick t))\<rparr>]))"
proof (intro conjI)
  from sleepLoop_total [OF assms, of "now f + dur" "[]"]
  show "\<exists>f' out. Sleep dur f = Some (f', out) \<and> now f' = now f + dur \<and>
            sorted (map due out) \<and> (\<forall>e \<in> set out. due e \<le> now f + dur) \<and>
            (\<forall>l. (\<forall>t \<in> set (tickers f). l \<le> next_tick t) \<longrightarrow> (\<forall>e \<in> set out. l \<le> due e)) \<and>
            (\<forall>t \<in> set (tickers f'). now f + dur < next_tick t) \<and>
            map d_tick (tickers f') = map d_tick (tickers f)"
    by (simp add: Sleep_def)
next
  show "\<forall>i t. earliest (tickers f) = Some (i, t) \<longrightarrow>
            i < length (tickers f) \<and> tickers f ! i = t \<and>
            (\<forall>x \<in> set (tickers f). next_tick t \<le> next_tick x)"
    using earliest_Some by blast
next
  show "\<forall>i t u out. earliest (tickers f) = Some (i, t) \<and> next_tick t \<le> u \<longrightarrow>
            sleepLoop u f out =
              sleepLoop u
                (f\<lparr>now := next_tick t,
                   tickers := (tickers f)[i := t\<lparr>next_tick := next_tick t + d_tick t,
                                                c_tick := fst (trySendTick (c_tick t) (next_tick t))\<rparr>]\<rparr>)
                (out @ [\<lparr>ticker = i, due = next_tick t,
                         delivered = snd (trySendTick (c_tick t) (next_tick t))\<rparr>])"
    using sleepLoop_fire by blast
qed

lemma Sleep_twoTickers:
  "Sleep 30 twoTickers =
     Some (\<lparr>now = 30,
            tickers = [\<lparr>d_tick = 10, c_tick = Some 10, next_tick = 40\<rparr>,
                       \<lparr>d_tick = 15, c_tick = Some 15, next_tick = 45\<rparr>]\<rparr>,
           [\<lparr>ticker = 0, due = 10, delivered = True\<rparr>,
            \<lparr>ticker = 1, due = 15, delivered = True\<rparr>,
            \<lparr>ticker = 0, due = 20, delivered = False\<rparr>,
            \<lparr>ticker = 0, due = 30, delivered = False\<rparr>,
            \<lparr>ticker = 1, due = 30, delivered = False\<rparr>])"
  by (simp add: Sleep_def twoTickers_def sleepLoop.simps earliest_def trySendTick_def Let_def)

theorem Sleep_fires_in_order_witness:
  "0 < d_tick (tickers twoTickers ! 0) \<and> 0 < d_tick (tickers twoTickers ! 1) \<and>
   length (tickers twoTickers) = 2 \<and>
   (\<exists>f' out. Sleep 30 twoTickers = Some (f', out) \<and> now f' = now twoTickers + 30 \<and>
      sorted (map due out) \<and> map due out = [10, 15, 20, 30, 30] \<and>
      map d_tick (tickers f') = [10, 15])"
proof -
  have h: "\<forall>t \<in> set (tickers twoTickers). 0 < d_tick t"
    by (simp add: twoTickers_def)
  from Sleep_fires_in_order [OF h, of 30] obtain f' out
    where "Sleep 30 twoTickers = Some (f', out)" "now f' = now twoTickers + 30"
      "sorted (map due out)" "map d_tick (tickers f') = map d_tick (tickers twoTickers)"
    by blast
  moreover from this(1) have "map due out = [10, 15, 20, 30, 30]"
    by (auto simp: Sleep_twoTickers)
  ultimately show ?thesis
    by (simp add: twoTickers_def)
qed

lemma sleepLoop_backward:
  assumes "sleepLoop u f out = Some y"
  shows "\<not> (\<exists>ch n. tickers f = [\<lparr>d_tick = - 1, c_tick = ch, next_tick = n\<rparr>] \<and> n \<le> u)"
proof (rule sleepLoop.raw_induct
    [where P = "\<lambda>u f out y. \<not> (\<exists>ch n. tickers f = [\<lparr>d_tick = - 1, c_tick = ch, next_tick = n\<rparr>] \<and> n \<le> u)",
     OF _ assms])
  fix loop :: "int \<Rightarrow> FakeClock \<Rightarrow> fired list \<Rightarrow> (FakeClock \<times> fired list) option"
  fix u f out y
  assume IH: "\<And>u f out y. loop u f out = Some y \<Longrightarrow>
      \<not> (\<exists>ch n. tickers f = [\<lparr>d_tick = - 1, c_tick = ch, next_tick = n\<rparr>] \<and> n \<le> u)"
  assume body: "(case earliest (tickers f) of
        None \<Rightarrow> Some (f\<lparr>now := u\<rparr>, out)
      | Some (i, t) \<Rightarrow>
          if next_tick t > u then Some (f\<lparr>now := u\<rparr>, out)
          else
            let n = next_tick t;
                t1 = t\<lparr>next_tick := next_tick t + d_tick t\<rparr>;
                (ch, ok) = trySendTick (c_tick t1) n;
                t2 = t1\<lparr>c_tick := ch\<rparr>
            in loop u
                 (f\<lparr>now := n, tickers := (tickers f)[i := t2]\<rparr>)
                 (out @ [\<lparr>ticker = i, due = n, delivered = ok\<rparr>])) = Some y"
  show "\<not> (\<exists>ch n. tickers f = [\<lparr>d_tick = - 1, c_tick = ch, next_tick = n\<rparr>] \<and> n \<le> u)"
  proof
    assume "\<exists>ch n. tickers f = [\<lparr>d_tick = - 1, c_tick = ch, next_tick = n\<rparr>] \<and> n \<le> u"
    then obtain ch n where tk: "tickers f = [\<lparr>d_tick = - 1, c_tick = ch, next_tick = n\<rparr>]"
      and n: "n \<le> u" by blast
    let ?t = "\<lparr>d_tick = - 1, c_tick = ch, next_tick = n\<rparr>"
    let ?t2 = "?t\<lparr>next_tick := n + - 1, c_tick := fst (trySendTick ch n)\<rparr>"
    let ?f1 = "f\<lparr>now := n, tickers := [?t2]\<rparr>"
    let ?out1 = "out @ [\<lparr>ticker = 0, due = n, delivered = snd (trySendTick ch n)\<rparr>]"
    have e: "earliest (tickers f) = Some (0, ?t)" by (simp add: tk earliest_def)
    from body e n tk have "loop u ?f1 ?out1 = Some y"
      by (simp add: Let_def split: prod.splits)
    from IH [OF this]
    have "\<not> (\<exists>ch' n'. tickers ?f1 = [\<lparr>d_tick = - 1, c_tick = ch', next_tick = n'\<rparr>] \<and> n' \<le> u)" .
    moreover have "tickers ?f1 = [\<lparr>d_tick = - 1, c_tick = fst (trySendTick ch n), next_tick = n - 1\<rparr>]"
      by simp
    moreover have "n - 1 \<le> u" using n by simp
    ultimately show False by blast
  qed
qed

theorem Sleep_with_negative_period_never_returns:
  "NewTicker (- 1) \<lparr>now = 0, tickers = []\<rparr> = Inr backwardClock \<and> Sleep 0 backwardClock = None"
proof -
  have "sleepLoop 0 backwardClock [] = None"
  proof (cases "sleepLoop 0 backwardClock []")
    case None
    then show ?thesis .
  next
    case (Some y)
    from sleepLoop_backward [OF Some] show ?thesis by (simp add: backwardClock_def)
  qed
  then show ?thesis
    by (simp add: NewTicker_def backwardClock_def Sleep_def)
qed

end
